theory Spec2Isabelle
  imports Main "HOL-Library.Monad_Syntax" "HOL-Library.Product_Lexorder" "HOL-Library.AList"
begin

section \<open>The value algebra and the gate kinds\<close>

text \<open>
  Signal values are the Python strings \<open>"0"\<close>, \<open>"1"\<close>, \<open>"X"\<close>, \<open>"U"\<close>, \<open>"Z"\<close>,
  \<open>"D"\<close> and \<open>"D'"\<close>. \<open>VNone\<close> stands for Python's \<open>None\<close>, which
  \<open>oppositeVal\<close> and the fall-through of \<open>evaluate_and\<close>/\<open>evaluate_or\<close> return.
\<close>

datatype val = V0 | V1 | VX | VU | VZ | VD | VDbar | VNone

text \<open>
  The gate type is a string in the source; every evaluator dispatches on the nine
  known names and \<open>inpt\<close>, and treats any other string alike (\<open>KOther\<close>).
\<close>

datatype kind = Inpt | And | Or | Nand | Nor | Xor | Xnor | Not | Buf | Fanout | KOther

section \<open>D-algebra evaluators (src/step3/Gate.py)\<close>

text \<open>
  Every evaluator receives \<open>input_values\<close> and the three flags the caller computed
  from the gate's own inputs. An exception (\<open>input_values[0]\<close> on an empty list) is
  the result \<open>None\<close>.
\<close>

definition evaluate_not :: "val list \<Rightarrow> bool \<Rightarrow> bool \<Rightarrow> bool \<Rightarrow> val option" where
  "evaluate_not input_values has_X has_U has_Z =
     (case input_values of
        [] \<Rightarrow> None
      | input_val # _ \<Rightarrow>
          Some (if has_Z \<or> has_U then VU
                else if input_val = VD then VDbar
                else if input_val = VDbar then VD
                else if input_val = V1 then V0
                else if input_val = V0 then V1
                else VX))"

definition evaluate_buf :: "val list \<Rightarrow> bool \<Rightarrow> bool \<Rightarrow> bool \<Rightarrow> val option" where
  "evaluate_buf input_values has_X has_U has_Z =
     (case input_values of [] \<Rightarrow> None | v # _ \<Rightarrow> Some v)"

definition evaluate_fanout :: "val list \<Rightarrow> bool \<Rightarrow> bool \<Rightarrow> bool \<Rightarrow> val option" where
  "evaluate_fanout input_values has_X has_U has_Z =
     (case input_values of [] \<Rightarrow> None | v # _ \<Rightarrow> Some v)"

definition evaluate_xor :: "val list \<Rightarrow> bool \<Rightarrow> bool \<Rightarrow> bool \<Rightarrow> val option" where
  "evaluate_xor input_values has_X has_U has_Z =
     (if has_Z \<or> has_U then Some VU
      else if has_X then Some VX
      else
        let d_count = count_list input_values VD;
            d_prime_count = count_list input_values VDbar;
            one_count = count_list input_values V1
        in if d_count = 0 \<and> d_prime_count = 0
             then Some (if one_count mod 2 = 1 then V1 else V0)
           else if d_count mod 2 = 1 \<and> d_prime_count mod 2 = 0
             then Some (if one_count mod 2 = 1 then VDbar else VD)
           else if d_count mod 2 = 1 \<and> d_prime_count mod 2 = 1
             then Some (if one_count mod 2 = 1 then V0 else V1)
           else if d_count mod 2 = 0 \<and> d_prime_count mod 2 = 1
             then Some (if one_count mod 2 = 1 then VD else VDbar)
           else Some V0)"

definition evaluate_or :: "val list \<Rightarrow> bool \<Rightarrow> bool \<Rightarrow> bool \<Rightarrow> val option" where
  "evaluate_or input_values has_X has_U has_Z =
     (if has_Z \<or> has_U then Some VU
      else if V1 \<in> set input_values then Some V1
      else if has_X then Some VX
      else if VD \<in> set input_values \<and> VDbar \<in> set input_values then Some V1
      else if VD \<in> set input_values \<and> list_all (\<lambda>v. v \<in> set [V0, VD]) input_values
        then Some VD
      else if VDbar \<in> set input_values \<and> list_all (\<lambda>v. v \<in> set [V0, VDbar]) input_values
        then Some VDbar
      else if list_all (\<lambda>v. v = V0) input_values then Some V0
      else Some VNone)"

definition evaluate_and :: "val list \<Rightarrow> bool \<Rightarrow> bool \<Rightarrow> bool \<Rightarrow> val option" where
  "evaluate_and input_values has_X has_U has_Z =
     (if has_Z \<or> has_U then Some VU
      else if V0 \<in> set input_values then Some V0
      else if has_X then Some VX
      else if VD \<in> set input_values \<and> VDbar \<in> set input_values then Some V0
      else if VD \<in> set input_values \<and> list_all (\<lambda>v. v \<in> set [V1, VD]) input_values
        then Some VD
      else if VDbar \<in> set input_values \<and> list_all (\<lambda>v. v \<in> set [V1, VDbar]) input_values
        then Some VDbar
      else if list_all (\<lambda>v. v = V1) input_values then Some V1
      else Some VNone)"

definition evaluate_xnor :: "val list \<Rightarrow> bool \<Rightarrow> bool \<Rightarrow> bool \<Rightarrow> val option" where
  "evaluate_xnor input_values has_X has_U has_Z =
     (case evaluate_xor input_values has_X has_U has_Z of
        None \<Rightarrow> None
      | Some out \<Rightarrow> evaluate_not [out] has_X has_U has_Z)"

definition evaluate_nor :: "val list \<Rightarrow> bool \<Rightarrow> bool \<Rightarrow> bool \<Rightarrow> val option" where
  "evaluate_nor input_values has_X has_U has_Z =
     (case evaluate_or input_values has_X has_U has_Z of
        None \<Rightarrow> None
      | Some out \<Rightarrow> evaluate_not [out] has_X has_U has_Z)"

definition evaluate_nand :: "val list \<Rightarrow> bool \<Rightarrow> bool \<Rightarrow> bool \<Rightarrow> val option" where
  "evaluate_nand input_values has_X has_U has_Z =
     (case evaluate_and input_values has_X has_U has_Z of
        None \<Rightarrow> None
      | Some out \<Rightarrow> evaluate_not [out] has_X has_U has_Z)"

text \<open>
  The parity rule of the specification for an xor over \<open>{0, 1, D, D'}\<close>: \<open>D\<close> is 1 in
  the good circuit and 0 in the faulty one, \<open>D'\<close> the reverse.
\<close>

definition encode_pair :: "nat \<Rightarrow> nat \<Rightarrow> val" where
  "encode_pair good faulty =
     (if good = 0 \<and> faulty = 0 then V0
      else if good = 1 \<and> faulty = 1 then V1
      else if good = 1 \<and> faulty = 0 then VD
      else VDbar)"

definition spec_xor_parity :: "val list \<Rightarrow> val" where
  "spec_xor_parity vs =
     encode_pair ((count_list vs VD + count_list vs V1) mod 2)
                 ((count_list vs VDbar + count_list vs V1) mod 2)"

section \<open>Binary/unknown evaluators (src/step1/step1.py, src/step2/step2.py)\<close>

text \<open>
  \<open>int(inp)\<close> of the xor and xnor branches: defined on \<open>"0"\<close> and \<open>"1"\<close>, an
  exception on every other value that passed the U/Z test.
\<close>

definition int_of_val :: "val \<Rightarrow> nat option" where
  "int_of_val v = (if v = V0 then Some 0 else if v = V1 then Some 1 else None)"

fun sum_int_of_vals :: "val list \<Rightarrow> nat option" where
  "sum_int_of_vals [] = Some 0"
| "sum_int_of_vals (v # vs) =
     (case int_of_val v of
        None \<Rightarrow> None
      | Some n \<Rightarrow> (case sum_int_of_vals vs of None \<Rightarrow> None | Some m \<Rightarrow> Some (n + m)))"

definition str_of_bit :: "nat \<Rightarrow> val" where
  "str_of_bit n = (if n = 0 then V0 else V1)"

text \<open>
  \<open>Gate.evaluate\<close> of the zero-delay evaluator (step1): the new \<open>output\<close> from the
  gate type, the inputs' outputs and the old output (kept by an \<open>inpt\<close> gate).
\<close>

definition evaluate_step1 :: "kind \<Rightarrow> val list \<Rightarrow> val \<Rightarrow> val option" where
  "evaluate_step1 t input_values old_output =
     (if t = Inpt then Some old_output
      else
        let has_U = (VU \<in> set input_values);
            has_Z = (VZ \<in> set input_values);
            clean_inputs = filter (\<lambda>v. v \<in> {V0, V1}) input_values
        in
        if t = Nand then
          Some (if V0 \<in> set clean_inputs then V1
                else if has_U then VU
                else if has_Z then VZ
                else V0)
        else if t = And then
          Some (if V0 \<in> set clean_inputs then V0
                else if has_U \<or> has_Z then VU
                else V1)
        else if t = Or then
          Some (if V1 \<in> set clean_inputs then V1
                else if has_U \<or> has_Z then VU
                else V0)
        else if t = Nor then
          Some (if V1 \<in> set clean_inputs then V0
                else if has_U \<or> has_Z then VU
                else V1)
        else if t = Xor then
          (if has_U \<or> has_Z then Some VU
           else case sum_int_of_vals input_values of
                  None \<Rightarrow> None
                | Some s \<Rightarrow> Some (str_of_bit (s mod 2)))
        else if t = Xnor then
          (if has_U \<or> has_Z then Some VU
           else case sum_int_of_vals input_values of
                  None \<Rightarrow> None
                | Some s \<Rightarrow> Some (if s mod 2 = 0 then V1 else V0))
        else if t = Not then
          Some (case input_values of
                  [] \<Rightarrow> VU
                | v # _ \<Rightarrow> if v \<in> {VU, VZ} then VU
                           else if v = V1 then V0 else V1)
        else if t = Buf then
          Some (case input_values of [] \<Rightarrow> VU | v # _ \<Rightarrow> v)
        else if t = Fanout then
          Some (case input_values of [] \<Rightarrow> VU | v # _ \<Rightarrow> v)
        else Some VU)"

text \<open>
  The \<open>pending_output\<close> that \<open>Gate.evaluate\<close> of the event-driven simulator (step2)
  computes for a gate that is not an \<open>inpt\<close>.
\<close>

definition pending_output_step2 :: "kind \<Rightarrow> val list \<Rightarrow> val option" where
  "pending_output_step2 t input_values =
     (let has_U = (VU \<in> set input_values);
          has_Z = (VZ \<in> set input_values);
          clean_inputs = filter (\<lambda>v. v \<in> {V0, V1}) input_values
      in
      if t = Nand then
        Some (if V0 \<in> set clean_inputs then V1
              else if has_U then VU
              else if has_Z then VZ
              else V0)
      else if t = And then
        Some (if V0 \<in> set clean_inputs then V0
              else if VU \<in> set input_values then VU
              else if VZ \<in> set input_values then VZ
              else V1)
      else if t = Or then
        Some (if V1 \<in> set clean_inputs then V1
              else if VU \<in> set input_values then VU
              else if VZ \<in> set input_values then VZ
              else V0)
      else if t = Nor then
        Some (if V1 \<in> set clean_inputs then V0
              else if VU \<in> set input_values then VU
              else if VZ \<in> set input_values then VZ
              else V1)
      else if t = Xor then
        (if has_U \<or> has_Z then Some VU
         else case sum_int_of_vals input_values of
                None \<Rightarrow> None
              | Some s \<Rightarrow> Some (str_of_bit (s mod 2)))
      else if t = Xnor then
        (if has_U \<or> has_Z then Some VU
         else case sum_int_of_vals input_values of
                None \<Rightarrow> None
              | Some s \<Rightarrow> Some (if s mod 2 = 0 then V1 else V0))
      else if t = Not then
        Some (case input_values of
                [] \<Rightarrow> VU
              | v # _ \<Rightarrow> if v = VU then VU
                         else if v = VZ then VU
                         else if v = V1 then V0 else V1)
      else if t = Buf then
        Some (case input_values of
                [] \<Rightarrow> VU
              | v # _ \<Rightarrow> if v \<in> {VU, VZ} then v else v)
      else if t = Fanout then
        Some (case input_values of [] \<Rightarrow> VU | v # _ \<Rightarrow> v)
      else Some VU)"

text \<open>
  The rule of the specification for and/or/nand/nor in binary/unknown mode, in the
  specification's words: controlling value first, then U for any U or Z (nand alone
  reporting Z), then the non-controlling result.
\<close>

definition controlling_value :: "kind \<Rightarrow> val" where
  "controlling_value t = (if t = And \<or> t = Nand then V0 else V1)"

definition controlled_output :: "kind \<Rightarrow> val" where
  "controlled_output t = (if t = And \<or> t = Nor then V0 else V1)"

definition non_controlled_output :: "kind \<Rightarrow> val" where
  "non_controlled_output t = (if t = And \<or> t = Nor then V1 else V0)"

definition spec_cv_rule :: "kind \<Rightarrow> val list \<Rightarrow> val" where
  "spec_cv_rule t vs =
     (if controlling_value t \<in> set vs then controlled_output t
      else if VU \<in> set vs \<or> VZ \<in> set vs
        then (if t = Nand \<and> VZ \<in> set vs \<and> VU \<notin> set vs then VZ else VU)
      else non_controlled_output t)"

text \<open>The same rule with the Z exception extended from nand to all four kinds.\<close>

definition z_reporting_cv_rule :: "kind \<Rightarrow> val list \<Rightarrow> val" where
  "z_reporting_cv_rule t vs =
     (if controlling_value t \<in> set vs then controlled_output t
      else if VU \<in> set vs \<or> VZ \<in> set vs
        then (if VZ \<in> set vs \<and> VU \<notin> set vs then VZ else VU)
      else non_controlled_output t)"

section \<open>Gates, the object store and the circuit\<close>

text \<open>
  The testability measures are Python integers or \<open>float('inf')\<close> (the initial
  value): \<open>Inf\<close> absorbs addition and is above every integer.
\<close>

datatype cost = Fin int | Inf

fun cadd :: "cost \<Rightarrow> cost \<Rightarrow> cost" where
  "cadd (Fin a) (Fin b) = Fin (a + b)"
| "cadd _ _ = Inf"

fun cle :: "cost \<Rightarrow> cost \<Rightarrow> bool" where
  "cle (Fin a) (Fin b) = (a \<le> b)"
| "cle _ Inf = True"
| "cle Inf (Fin _) = False"

definition clt :: "cost \<Rightarrow> cost \<Rightarrow> bool" where
  "clt a b = (\<not> cle b a)"

text \<open>Python's two-argument \<open>min\<close> keeps the first argument unless the second is smaller.\<close>

definition cmin :: "cost \<Rightarrow> cost \<Rightarrow> cost" where
  "cmin a b = (if clt b a then b else a)"

text \<open>\<open>min\<close> over a generator raises ValueError when it is empty.\<close>

fun min_cost :: "cost list \<Rightarrow> cost option" where
  "min_cost [] = None"
| "min_cost (x # xs) = Some (foldl cmin x xs)"

definition sum_cost :: "cost list \<Rightarrow> cost" where
  "sum_cost xs = foldl cadd (Fin 0) xs"

text \<open>
  One record carries the fields of the three revisions' \<open>Gate\<close> classes: step2 adds
  \<open>scheduled_events\<close> and \<open>last_input_event_time\<close> to step1's fields, step3 adds
  the fault flags and the SCOAP measures. \<open>gtype\<close> is the field \<open>type\<close>. The
  \<open>inputs\<close> are references to gate objects: indices into the object store.
\<close>

record gate =
  address :: int
  name :: string
  gtype :: kind
  fanout :: int
  fanin :: int
  faults :: "string list"
  faulty :: bool
  fault_value :: val
  delay :: int
  inputs :: "nat list"
  "output" :: val
  scheduled_events :: "(int \<times> val) list"
  last_input_event_time :: int
  CC0 :: cost
  CC1 :: cost
  CO :: cost

text \<open>\<open>GATE_PROPERTIES\<close>, fixed by the gate type at construction.\<close>

definition inversion :: "kind \<Rightarrow> bool" where
  "inversion t = (t = Not \<or> t = Nand \<or> t = Nor \<or> t = Xnor)"

definition non_controlling_value :: "kind \<Rightarrow> val" where
  "non_controlling_value t =
     (if t = Not \<or> t = Nand \<or> t = And \<or> t = Buf \<or> t = Fanout then V1
      else if t = Nor \<or> t = Xnor \<or> t = Or \<or> t = Xor then V0
      else VX)"

text \<open>
  The object store maps a reference to the gate object it denotes; a circuit holds the
  dictionary \<open>gates\<close> in insertion order (keyed by address in step1 and step2, by name
  in step3) and the two derived lists.
\<close>

type_synonym store = "nat \<Rightarrow> gate"

record 'k circuit =
  heap :: store
  gates :: "('k \<times> nat) list"
  primary_inputs :: "nat list"
  primary_outputs :: "nat list"

definition gate_values :: "'k circuit \<Rightarrow> nat list" where
  "gate_values c = map snd (gates c)"

definition nth_input :: "store \<Rightarrow> nat \<Rightarrow> nat \<Rightarrow> nat option" where
  "nth_input h g k = (if k < length (inputs (h g)) then Some (inputs (h g) ! k) else None)"

definition set_CC0 :: "store \<Rightarrow> nat \<Rightarrow> cost \<Rightarrow> store" where
  "set_CC0 h g v = h(g := (h g)\<lparr>CC0 := v\<rparr>)"

definition set_CC1 :: "store \<Rightarrow> nat \<Rightarrow> cost \<Rightarrow> store" where
  "set_CC1 h g v = h(g := (h g)\<lparr>CC1 := v\<rparr>)"

definition set_CO :: "store \<Rightarrow> nat \<Rightarrow> cost \<Rightarrow> store" where
  "set_CO h g v = h(g := (h g)\<lparr>CO := v\<rparr>)"

definition set_output :: "store \<Rightarrow> nat \<Rightarrow> val \<Rightarrow> store" where
  "set_output h g v = h(g := (h g)\<lparr>output := v\<rparr>)"

text \<open>
  \<open>Gate.__init__\<close> (with the default \<open>delay = 0\<close>): no inputs yet, output U, no
  fault, no scheduled event, infinite measures.
\<close>

definition Gate_init :: "int \<Rightarrow> string \<Rightarrow> kind \<Rightarrow> int \<Rightarrow> int \<Rightarrow> string list \<Rightarrow> gate" where
  "Gate_init a n t fo fi fs =
     \<lparr>address = a, name = n, gtype = t, fanout = fo, fanin = fi, faults = fs,
      faulty = False, fault_value = VNone, delay = 0, inputs = [], output = VU,
      scheduled_events = [], last_input_event_time = 0, CC0 = Inf, CC1 = Inf, CO = Inf\<rparr>"

text \<open>A store in which no object has been allocated by the parser yet.\<close>

definition empty_store :: store where
  "empty_store = (\<lambda>_. Gate_init 0 [] KOther 0 0 [])"

section \<open>SCOAP (src/step3/Circuit.py, compute_scoap)\<close>

text \<open>The first loop: every \<open>inpt\<close> gate gets \<open>CC0 = CC1 = 1\<close>.\<close>

fun scoap_init :: "store \<Rightarrow> nat list \<Rightarrow> store" where
  "scoap_init h [] = h"
| "scoap_init h (g # gs) =
     scoap_init (if gtype (h g) = Inpt then set_CC1 (set_CC0 h g (Fin 1)) g (Fin 1) else h) gs"

text \<open>
  One iteration of the forward loop. The two assignments of a branch run one after the
  other on the store, so a gate that lists itself among its inputs reads what the
  first assignment wrote. \<open>None\<close> is an exception (\<open>min\<close> of no inputs,
  \<open>gate.inputs[k]\<close> out of range).
\<close>

definition forward_step :: "store \<Rightarrow> nat \<Rightarrow> store option" where
  "forward_step h g =
     (let t = gtype (h g) in
      if t = And then
        do { m \<leftarrow> min_cost (map (\<lambda>i. CC0 (h i)) (inputs (h g)));
             let h1 = set_CC0 h g (cadd m (Fin 1));
             Some (set_CC1 h1 g (cadd (sum_cost (map (\<lambda>i. CC1 (h1 i)) (inputs (h1 g)))) (Fin 1))) }
      else if t = Or then
        do { let h1 = set_CC0 h g (cadd (sum_cost (map (\<lambda>i. CC0 (h i)) (inputs (h g)))) (Fin 1));
             m \<leftarrow> min_cost (map (\<lambda>i. CC1 (h1 i)) (inputs (h1 g)));
             Some (set_CC1 h1 g (cadd m (Fin 1))) }
      else if t = Nand then
        do { let h1 = set_CC0 h g (cadd (sum_cost (map (\<lambda>i. CC1 (h i)) (inputs (h g)))) (Fin 1));
             m \<leftarrow> min_cost (map (\<lambda>i. CC0 (h1 i)) (inputs (h1 g)));
             Some (set_CC1 h1 g (cadd m (Fin 1))) }
      else if t = Nor then
        do { m \<leftarrow> min_cost (map (\<lambda>i. CC1 (h i)) (inputs (h g)));
             let h1 = set_CC0 h g (cadd m (Fin 1));
             Some (set_CC1 h1 g (cadd (sum_cost (map (\<lambda>i. CC0 (h1 i)) (inputs (h1 g)))) (Fin 1))) }
      else if t = Xor then
        do { a \<leftarrow> nth_input h g 0;
             b \<leftarrow> nth_input h g 1;
             let h1 = set_CC0 h g
                        (cadd (cmin (cadd (CC0 (h a)) (CC0 (h b))) (cadd (CC1 (h a)) (CC1 (h b))))
                              (Fin 1));
             Some (set_CC1 h1 g
                     (cadd (cmin (cadd (CC1 (h1 a)) (CC0 (h1 b))) (cadd (CC0 (h1 a)) (CC1 (h1 b))))
                           (Fin 1))) }
      else if t = Xnor then
        do { a \<leftarrow> nth_input h g 0;
             b \<leftarrow> nth_input h g 1;
             let h1 = set_CC0 h g
                        (cadd (cmin (cadd (CC1 (h a)) (CC0 (h b))) (cadd (CC0 (h a)) (CC1 (h b))))
                              (Fin 1));
             Some (set_CC1 h1 g
                     (cadd (cmin (cadd (CC0 (h1 a)) (CC0 (h1 b))) (cadd (CC1 (h1 a)) (CC1 (h1 b))))
                           (Fin 1))) }
      else if t = Not then
        do { a \<leftarrow> nth_input h g 0;
             let h1 = set_CC0 h g (cadd (CC1 (h a)) (Fin 1));
             Some (set_CC1 h1 g (cadd (CC0 (h1 a)) (Fin 1))) }
      else if t = Buf \<or> t = Fanout then
        do { a \<leftarrow> nth_input h g 0;
             let h1 = set_CC0 h g (CC0 (h a));
             Some (set_CC1 h1 g (CC1 (h1 a))) }
      else Some h)"

fun forward_pass :: "store \<Rightarrow> nat list \<Rightarrow> store option" where
  "forward_pass h [] = Some h"
| "forward_pass h (g # gs) =
     (case forward_step h g of None \<Rightarrow> None | Some h' \<Rightarrow> forward_pass h' gs)"

text \<open>
  The xor/xnor branch of the backward loop, for the indices \<open>is\<close> still to visit:
  \<open>other_inputs\<close> are the inputs at the other positions.
\<close>

definition other_inputs :: "store \<Rightarrow> nat \<Rightarrow> nat \<Rightarrow> nat list" where
  "other_inputs h g i =
     map (\<lambda>j. inputs (h g) ! j) (filter (\<lambda>j. j \<noteq> i) [0 ..< length (inputs (h g))])"

fun backward_xor :: "store \<Rightarrow> nat \<Rightarrow> nat list \<Rightarrow> store option" where
  "backward_xor h g [] = Some h"
| "backward_xor h g (i # is) =
     do { m0 \<leftarrow> min_cost (map (\<lambda>j. CC0 (h j)) (other_inputs h g i));
          m1 \<leftarrow> min_cost (map (\<lambda>j. CC1 (h j)) (other_inputs h g i));
          let min_other_cc = cadd m0 m1;
          backward_xor (set_CO h (inputs (h g) ! i) (cadd (cadd (CO (h g)) min_other_cc) (Fin 1)))
            g is }"

text \<open>
  One iteration of the backward loop; \<open>vals\<close> are all the dictionary's values, which
  the fanout branch scans for a consumer.
\<close>

definition backward_step :: "nat list \<Rightarrow> store \<Rightarrow> nat \<Rightarrow> store option" where
  "backward_step vals h0 g =
     (let h = (if fanout (h0 g) = 0 then set_CO h0 g (Fin 0) else h0);
          t = gtype (h g) in
      if t = Fanout then
        (let is_primary_output = (\<not> list_ex (\<lambda>other_gate. g \<in> set (inputs (h other_gate))) vals) in
         if is_primary_output then Some (set_CO h g (Fin 0))
         else do { a \<leftarrow> nth_input h g 0;
                   Some (if clt (CO (h g)) (CO (h a)) then set_CO h a (CO (h g)) else h) })
      else if t = And \<or> t = Nand then
        do { b \<leftarrow> nth_input h g 1;
             a \<leftarrow> nth_input h g 0;
             let h1 = set_CO h a (cadd (cadd (CO (h g)) (CC1 (h b))) (Fin 1));
             Some (set_CO h1 b (cadd (cadd (CO (h1 g)) (CC1 (h1 a))) (Fin 1))) }
      else if t = Or \<or> t = Nor then
        do { b \<leftarrow> nth_input h g 1;
             a \<leftarrow> nth_input h g 0;
             let h1 = set_CO h a (cadd (cadd (CO (h g)) (CC0 (h b))) (Fin 1));
             Some (set_CO h1 b (cadd (cadd (CO (h1 g)) (CC0 (h1 a))) (Fin 1))) }
      else if t = Xor \<or> t = Xnor then
        backward_xor h g [0 ..< length (inputs (h g))]
      else if t = Not \<or> t = Buf then
        do { a \<leftarrow> nth_input h g 0;
             Some (set_CO h a (cadd (CO (h g)) (Fin 1))) }
      else Some h)"

fun backward_pass :: "nat list \<Rightarrow> store \<Rightarrow> nat list \<Rightarrow> store option" where
  "backward_pass vals h [] = Some h"
| "backward_pass vals h (g # gs) =
     (case backward_step vals h g of None \<Rightarrow> None | Some h' \<Rightarrow> backward_pass vals h' gs)"

text \<open>\<open>compute_scoap\<close> without the report it writes at the end.\<close>

definition compute_scoap :: "'k circuit \<Rightarrow> 'k circuit option" where
  "compute_scoap c =
     do { let h0 = scoap_init (heap c) (gate_values c);
          h1 \<leftarrow> forward_pass h0 (gate_values c);
          h2 \<leftarrow> backward_pass (gate_values c) h1 (rev (gate_values c));
          Some (c\<lparr>heap := h2\<rparr>) }"

subsection \<open>Predicates on stores used to state the SCOAP properties\<close>

text \<open>The measures as \<open>Gate.__init__\<close> leaves them: all infinite.\<close>

definition fresh_measures :: "store \<Rightarrow> bool" where
  "fresh_measures h = (\<forall>i. CC0 (h i) = Inf \<and> CC1 (h i) = Inf \<and> CO (h i) = Inf)"

text \<open>A gate is consumed when some gate of the dictionary lists it among its inputs.\<close>

definition consumed :: "'k circuit \<Rightarrow> nat \<Rightarrow> bool" where
  "consumed c g = list_ex (\<lambda>other_gate. g \<in> set (inputs (heap c other_gate))) (gate_values c)"

text \<open>
  Well-formedness of the declared fan-out: a gate that nothing consumes declares
  \<open>fanout = 0\<close>, or is a fanout branch (which the parser always creates with
  \<open>fanout = 1\<close>).
\<close>

definition outputs_declared :: "'k circuit \<Rightarrow> bool" where
  "outputs_declared c =
     list_all (\<lambda>g. consumed c g \<or> fanout (heap c g) = 0 \<or> gtype (heap c g) = Fanout)
       (gate_values c)"

definition cc_bounded :: "store \<Rightarrow> bool" where
  "cc_bounded h = (\<forall>i. cle (Fin 1) (CC0 (h i)) \<and> cle (Fin 1) (CC1 (h i)))"

definition co_bounded :: "store \<Rightarrow> bool" where
  "co_bounded h = (\<forall>i. cle (Fin 0) (CO (h i)))"

text \<open>Frames: the second store differs from the first in the named fields only.\<close>

definition only_CO :: "store \<Rightarrow> store \<Rightarrow> bool" where
  "only_CO h h' = (\<forall>i. h' i = (h i)\<lparr>CO := CO (h' i)\<rparr>)"

definition only_CC :: "store \<Rightarrow> store \<Rightarrow> bool" where
  "only_CC h h' = (\<forall>i. h' i = (h i)\<lparr>CC0 := CC0 (h' i), CC1 := CC1 (h' i)\<rparr>)"

text \<open>
  The fanout branches of a gate that hand their \<open>CO\<close> on to it in the backward pass
  (Circuit.py, lines 110 to 120): the \<open>fanout\<close> gates of the dictionary whose first input
  is the gate and which some gate consumes.
\<close>

definition stem_branches :: "store \<Rightarrow> nat list \<Rightarrow> nat \<Rightarrow> nat list" where
  "stem_branches h vals s =
     filter (\<lambda>b. gtype (h b) = Fanout \<and> nth_input h b 0 = Some s
                \<and> list_ex (\<lambda>other_gate. b \<in> set (inputs (h other_gate))) vals) vals"

text \<open>
  The gates whose \<open>CO\<close> the backward pass sets to 0 (Circuit.py, lines 107 to 117): a
  gate of the dictionary that declares \<open>fanout = 0\<close>, or a fanout branch that no gate
  consumes.
\<close>

definition declared_output :: "store \<Rightarrow> nat list \<Rightarrow> nat \<Rightarrow> bool" where
  "declared_output h vals s =
     (s \<in> set vals
      \<and> (fanout (h s) = 0
           \<or> gtype (h s) = Fanout \<and> \<not> list_ex (\<lambda>other_gate. s \<in> set (inputs (h other_gate))) vals))"

subsection \<open>Example netlists\<close>

text \<open>Two primary inputs feeding a two-input or gate that is the primary output.\<close>

definition or2_circuit :: "string circuit" where
  "or2_circuit =
     \<lparr>heap = empty_store
        (0 := Gate_init 1 ''a'' Inpt 1 0 [],
         1 := Gate_init 2 ''b'' Inpt 1 0 [],
         2 := (Gate_init 3 ''o'' Or 0 2 [])\<lparr>inputs := [0, 1]\<rparr>),
      gates = [(''a'', 0), (''b'', 1), (''o'', 2)],
      primary_inputs = [0, 1],
      primary_outputs = [2]\<rparr>"

text \<open>
  A netlist without fanout branch nodes in which the input \<open>a\<close> feeds two and gates
  directly: \<open>g1 = and(a, m)\<close> with \<open>m = and(x, y)\<close>, and \<open>g2 = and(a, b)\<close>; \<open>g1\<close>
  and \<open>g2\<close> are the primary outputs.
\<close>

definition reconvergent_circuit :: "string circuit" where
  "reconvergent_circuit =
     \<lparr>heap = empty_store
        (0 := Gate_init 1 ''a'' Inpt 2 0 [],
         1 := Gate_init 2 ''b'' Inpt 1 0 [],
         2 := Gate_init 3 ''x'' Inpt 1 0 [],
         3 := Gate_init 4 ''y'' Inpt 1 0 [],
         4 := (Gate_init 5 ''m'' And 1 2 [])\<lparr>inputs := [2, 3]\<rparr>,
         5 := (Gate_init 6 ''g1'' And 0 2 [])\<lparr>inputs := [0, 4]\<rparr>,
         6 := (Gate_init 7 ''g2'' And 0 2 [])\<lparr>inputs := [0, 1]\<rparr>),
      gates = [(''a'', 0), (''b'', 1), (''x'', 2), (''y'', 3), (''m'', 4), (''g1'', 5), (''g2'', 6)],
      primary_inputs = [0, 1, 2, 3],
      primary_outputs = [5, 6]\<rparr>"

text \<open>
  The same function with fanout branch nodes, as an ISCAS netlist declares it: the stem
  \<open>a\<close> has the branches \<open>a_1\<close> and \<open>a_2\<close>, which feed \<open>g1\<close> and \<open>g2\<close>.
\<close>

definition branched_circuit :: "string circuit" where
  "branched_circuit =
     \<lparr>heap = empty_store
        (0 := Gate_init 1 ''a'' Inpt 2 0 [],
         1 := Gate_init 2 ''b'' Inpt 1 0 [],
         2 := Gate_init 3 ''x'' Inpt 1 0 [],
         3 := Gate_init 4 ''y'' Inpt 1 0 [],
         4 := (Gate_init 5 ''m'' And 1 2 [])\<lparr>inputs := [2, 3]\<rparr>,
         5 := (Gate_init 8 ''a_1'' Fanout 1 1 [])\<lparr>inputs := [0]\<rparr>,
         6 := (Gate_init 9 ''a_2'' Fanout 1 1 [])\<lparr>inputs := [0]\<rparr>,
         7 := (Gate_init 6 ''g1'' And 0 2 [])\<lparr>inputs := [5, 4]\<rparr>,
         8 := (Gate_init 7 ''g2'' And 0 2 [])\<lparr>inputs := [6, 1]\<rparr>),
      gates = [(''a'', 0), (''b'', 1), (''x'', 2), (''y'', 3), (''m'', 4), (''a_1'', 5),
               (''a_2'', 6), (''g1'', 7), (''g2'', 8)],
      primary_inputs = [0, 1, 2, 3],
      primary_outputs = [7, 8]\<rparr>"

section \<open>PODEM (src/step3/Gate.py d_algebra_evaluate, src/step3/Podem.py)\<close>

text \<open>
  \<open>Gate.d_algebra_evaluate\<close> on the gate object \<open>g\<close>: dispatch on the type, then the
  fault injection. \<open>None\<close> is the IndexError of \<open>input_values[0]\<close>.
\<close>

definition d_algebra_evaluate :: "store \<Rightarrow> nat \<Rightarrow> store option" where
  "d_algebra_evaluate h g =
     (let input_values = map (\<lambda>i. output (h i)) (inputs (h g));
          has_X = (VX \<in> set input_values);
          has_U = (VU \<in> set input_values);
          has_Z = (VZ \<in> set input_values);
          t = gtype (h g)
      in
      do { out \<leftarrow>
             (if t = Inpt then Some (output (h g))
              else if t = And then evaluate_and input_values has_X has_U has_Z
              else if t = Or then evaluate_or input_values has_X has_U has_Z
              else if t = Xor then evaluate_xor input_values has_X has_U has_Z
              else if t = Not then evaluate_not input_values has_X has_U has_Z
              else if t = Buf then evaluate_buf input_values has_X has_U has_Z
              else if t = Nand then evaluate_nand input_values has_X has_U has_Z
              else if t = Nor then evaluate_nor input_values has_X has_U has_Z
              else if t = Xnor then evaluate_xnor input_values has_X has_U has_Z
              else if t = Fanout then evaluate_fanout input_values has_X has_U has_Z
              else Some VX);
           Some (set_output h g
                  (if faulty (h g) then
                     (if fault_value (h g) = V1 \<and> out = V0 then VDbar
                      else if fault_value (h g) = V0 \<and> out = V1 then VD
                      else out)
                   else out)) })"

text \<open>
  The state of a \<open>PODEM\<close> object: the circuit it works on (whose gate objects it
  mutates) and its own fields. \<open>pfault_value\<close> is the field \<open>PODEM.fault_value\<close>,
  which only \<open>__init__\<close> writes.
\<close>

record 'k podem =
  circuit :: "'k circuit"
  fault_is_activated :: bool
  D_Frontier :: "nat list"
  fault_gate :: "nat option"
  pfault_value :: val

definition PODEM_init :: "'k circuit \<Rightarrow> 'k podem" where
  "PODEM_init c =
     \<lparr>circuit = c, fault_is_activated = False, D_Frontier = [], fault_gate = None,
      pfault_value = VNone\<rparr>"

fun podem_init_loop :: "store \<Rightarrow> nat list \<Rightarrow> store" where
  "podem_init_loop h [] = h"
| "podem_init_loop h (g # gs) = podem_init_loop (set_output h g VX) gs"

definition podem_init :: "'k podem \<Rightarrow> 'k podem" where
  "podem_init p =
     p\<lparr>circuit := (circuit p)\<lparr>heap := podem_init_loop (heap (circuit p)) (gate_values (circuit p))\<rparr>\<rparr>"

definition podem_reset :: "'k podem \<Rightarrow> 'k podem" where
  "podem_reset p = PODEM_init (circuit p)"

text \<open>
  \<open>x_path_check\<close>: the breadth-first loop on the \<open>visited\<close> set and the queue. It
  terminates because every node enters \<open>visited\<close> at most once and the queue only
  receives gates of the dictionary.
\<close>

function x_path_loop :: "'k circuit \<Rightarrow> nat list \<Rightarrow> nat list \<Rightarrow> bool" where
  "x_path_loop c visited [] = False"
| "x_path_loop c visited (node # queue) =
     (if node \<in> set visited then x_path_loop c visited queue
      else if node \<in> set (primary_outputs c) then True
      else x_path_loop c (node # visited)
             (queue @ filter (\<lambda>g. node \<in> set (inputs (heap c g))
                                  \<and> output (heap c g) \<in> {VX, VD, VDbar})
                        (gate_values c)))"
  by pat_completeness auto
termination
proof (relation "measures [\<lambda>(c, visited, queue). card ((set (gate_values c) \<union> set queue) - set visited),
                           \<lambda>(c, visited, queue). length queue]", goal_cases)
  case 1
  show ?case by simp
next
  case (2 c visited node queue)
  have "(set (gate_values c) \<union> set queue) - set visited
        \<subseteq> (set (gate_values c) \<union> set (node # queue)) - set visited"
    by auto
  then have "card ((set (gate_values c) \<union> set queue) - set visited)
        \<le> card ((set (gate_values c) \<union> set (node # queue)) - set visited)"
    by (intro card_mono) auto
  then show ?case by auto
next
  case (3 c visited node queue)
  let ?new = "filter (\<lambda>g. node \<in> set (inputs (heap c g))
                           \<and> output (heap c g) \<in> {VX, VD, VDbar}) (gate_values c)"
  have "(set (gate_values c) \<union> set (queue @ ?new)) - set (node # visited)
        \<subset> (set (gate_values c) \<union> set (node # queue)) - set visited"
    using 3 by auto
  then have "card ((set (gate_values c) \<union> set (queue @ ?new)) - set (node # visited))
        < card ((set (gate_values c) \<union> set (node # queue)) - set visited)"
    by (intro psubset_card_mono) auto
  then show ?case by simp
qed

definition x_path_check :: "'k circuit \<Rightarrow> nat \<Rightarrow> bool" where
  "x_path_check c gate = x_path_loop c [] [gate]"

text \<open>
  \<open>generate_d_frontier\<close>: the loop over the dictionary's values, with the \<open>break\<close>
  that ends it at the first gate with output X and a D or D' input.
\<close>

fun d_frontier_loop :: "'k circuit \<Rightarrow> nat list \<Rightarrow> nat list" where
  "d_frontier_loop c [] = []"
| "d_frontier_loop c (g # gs) =
     (if output (heap c g) = VX then
        (if list_ex (\<lambda>inp. output (heap c inp) \<in> {VD, VDbar}) (inputs (heap c g)) then
           (if x_path_check c g then [g] else [])
         else d_frontier_loop c gs)
      else d_frontier_loop c gs)"

definition generate_d_frontier :: "'k podem \<Rightarrow> 'k podem" where
  "generate_d_frontier p = p\<lparr>D_Frontier := d_frontier_loop (circuit p) (gate_values (circuit p))\<rparr>"

definition success :: "'k podem \<Rightarrow> bool" where
  "success p =
     list_ex (\<lambda>po. output (heap (circuit p) po) \<in> {VD, VDbar}) (primary_outputs (circuit p))"

definition oppositeVal :: "val \<Rightarrow> val" where
  "oppositeVal v = (if v = V0 then V1 else if v = V1 then V0 else VNone)"

text \<open>\<open>min(self.D_Frontier, key=lambda gate: gate.CO)\<close>: the first gate of least CO.\<close>

definition min_by_CO :: "store \<Rightarrow> nat \<Rightarrow> nat list \<Rightarrow> nat" where
  "min_by_CO h x xs = foldl (\<lambda>best g. if clt (CO (h g)) (CO (h best)) then g else best) x xs"

text \<open>
  \<open>get_objective\<close> returns the objective gate (or \<open>None\<close>), the objective value and the
  PODEM state with the activation flag and the D-frontier it updated. The outer
  \<open>None\<close> is the AttributeError when \<open>fault_gate\<close> is \<open>None\<close>.
\<close>

definition get_objective :: "'k podem \<Rightarrow> (nat option \<times> val \<times> 'k podem) option" where
  "get_objective p0 =
     (case fault_gate p0 of
        None \<Rightarrow> None
      | Some fg \<Rightarrow>
          let h = heap (circuit p0);
              p = (if output (h fg) \<in> {VD, VDbar} then p0\<lparr>fault_is_activated := True\<rparr> else p0)
          in
          if \<not> fault_is_activated p then
            (if output (h fg) \<in> {V1, V0} then Some (None, VNone, p)
             else Some (Some fg, oppositeVal (fault_value (h fg)), p))
          else
            let p' = generate_d_frontier p in
            (case D_Frontier p' of
               [] \<Rightarrow> Some (None, VX, p')
             | x # xs \<Rightarrow>
                 let g = min_by_CO h x xs in
                 (case filter (\<lambda>inp. output (h inp) = VX) (inputs (h g)) of
                    [] \<Rightarrow> Some (None, VX, p')
                  | inp # _ \<Rightarrow> Some (Some inp, non_controlling_value (gtype (h g)), p'))))"

text \<open>
  \<open>get_easiest_to_satisfy_gate\<close> and \<open>get_hardest_to_satisfy_gate\<close>: the loops with
  their accumulators. \<open>hardest_value\<close> starts at \<open>-math.inf\<close>, here \<open>None\<close>.
\<close>

fun easiest_loop :: "store \<Rightarrow> val \<Rightarrow> nat option \<Rightarrow> cost \<Rightarrow> nat list \<Rightarrow> nat option" where
  "easiest_loop h objective_value easiest_gate easiest_value [] = easiest_gate"
| "easiest_loop h objective_value easiest_gate easiest_value (g # gs) =
     (if output (h g) = VX then
        (if objective_value = V0 then
           (if clt (CC0 (h g)) easiest_value
            then easiest_loop h objective_value (Some g) (CC0 (h g)) gs
            else easiest_loop h objective_value easiest_gate easiest_value gs)
         else if objective_value = V1 then
           (if clt (CC1 (h g)) easiest_value
            then easiest_loop h objective_value (Some g) (CC1 (h g)) gs
            else easiest_loop h objective_value easiest_gate easiest_value gs)
         else easiest_loop h objective_value easiest_gate easiest_value gs)
      else easiest_loop h objective_value easiest_gate easiest_value gs)"

definition get_easiest_to_satisfy_gate :: "store \<Rightarrow> nat \<Rightarrow> val \<Rightarrow> nat option" where
  "get_easiest_to_satisfy_gate h objective_gate objective_value =
     easiest_loop h objective_value None Inf (inputs (h objective_gate))"

definition above :: "cost \<Rightarrow> cost option \<Rightarrow> bool" where
  "above c hardest_value = (case hardest_value of None \<Rightarrow> True | Some v \<Rightarrow> clt v c)"

fun hardest_loop :: "store \<Rightarrow> val \<Rightarrow> nat option \<Rightarrow> cost option \<Rightarrow> nat list \<Rightarrow> nat option" where
  "hardest_loop h objective_value hardest_gate hardest_value [] = hardest_gate"
| "hardest_loop h objective_value hardest_gate hardest_value (g # gs) =
     (if output (h g) = VX then
        (if objective_value = V0 then
           (if above (CC0 (h g)) hardest_value
            then hardest_loop h objective_value (Some g) (Some (CC0 (h g))) gs
            else hardest_loop h objective_value hardest_gate hardest_value gs)
         else if objective_value = V1 then
           (if above (CC1 (h g)) hardest_value
            then hardest_loop h objective_value (Some g) (Some (CC1 (h g))) gs
            else hardest_loop h objective_value hardest_gate hardest_value gs)
         else hardest_loop h objective_value hardest_gate hardest_value gs)
      else hardest_loop h objective_value hardest_gate hardest_value gs)"

definition get_hardest_to_satisfy_gate :: "store \<Rightarrow> nat \<Rightarrow> val \<Rightarrow> nat option" where
  "get_hardest_to_satisfy_gate h objective_gate objective_value =
     hardest_loop h objective_value None None (inputs (h objective_gate))"

text \<open>\<open>check_imply_gate\<close>; its result \<open>None\<close> for a value other than 0 and 1 is falsy.\<close>

definition check_imply_gate :: "kind \<Rightarrow> val \<Rightarrow> bool" where
  "check_imply_gate t v =
     (if v = V1 then (if t = Or \<or> t = Nand then False else True)
      else if v = V0 then (if t = And \<or> t = Nor then False else True)
      else False)"

text \<open>
  One pass through the body of \<open>backtrace\<close>'s loop at a gate that is not an \<open>inpt\<close>:
  the target value after the flip, and the child to descend into. Both selectors
  receive \<open>objective_gate\<close> and \<open>objective_value\<close>, the value before the flip.
\<close>

definition backtrace_step :: "store \<Rightarrow> nat \<Rightarrow> val \<Rightarrow> nat option \<times> val" where
  "backtrace_step h objective_gate objective_value =
     (let target_pi_value =
            (if inversion (gtype (h objective_gate)) then oppositeVal objective_value
             else objective_value)
      in (if check_imply_gate (gtype (h objective_gate)) target_pi_value
          then get_hardest_to_satisfy_gate h objective_gate objective_value
          else get_easiest_to_satisfy_gate h objective_gate objective_value,
          target_pi_value))"

text \<open>
  \<open>backtrace\<close>: the loop body ends with the recursive call, whose result is an \<open>inpt\<close>
  gate, so the loop runs its body at most once per call. The recursion depth is
  bounded by the fuel; \<open>None\<close> is an exhausted fuel or the AttributeError when no
  child was selected.
\<close>

fun backtrace :: "nat \<Rightarrow> store \<Rightarrow> nat \<Rightarrow> val \<Rightarrow> (nat \<times> val) option" where
  "backtrace 0 h objective_gate objective_value = None"
| "backtrace (Suc n) h objective_gate objective_value =
     (if gtype (h objective_gate) = Inpt then Some (objective_gate, objective_value)
      else case backtrace_step h objective_gate objective_value of
             (None, _) \<Rightarrow> None
           | (Some target_pi, target_pi_value) \<Rightarrow> backtrace n h target_pi target_pi_value)"

text \<open>\<open>imply\<close>: passes over the gates sorted by address until no output changes.\<close>

fun imply_pass :: "store \<Rightarrow> nat list \<Rightarrow> store option" where
  "imply_pass h [] = Some h"
| "imply_pass h (g # gs) =
     (case d_algebra_evaluate h g of None \<Rightarrow> None | Some h' \<Rightarrow> imply_pass h' gs)"

fun imply_loop :: "nat \<Rightarrow> nat list \<Rightarrow> store \<Rightarrow> store option" where
  "imply_loop 0 sorted_gates h = None"
| "imply_loop (Suc n) sorted_gates h =
     (case imply_pass h sorted_gates of
        None \<Rightarrow> None
      | Some h' \<Rightarrow>
          if map (\<lambda>g. output (h' g)) sorted_gates \<noteq> map (\<lambda>g. output (h g)) sorted_gates
          then imply_loop n sorted_gates h'
          else Some h')"

definition imply :: "nat \<Rightarrow> 'k podem \<Rightarrow> 'k podem option" where
  "imply n p =
     (let h = heap (circuit p);
          sorted_gates = sort_key (\<lambda>g. address (h g)) (gate_values (circuit p))
      in case imply_loop n sorted_gates h of
           None \<Rightarrow> None
         | Some h' \<Rightarrow> Some (p\<lparr>circuit := (circuit p)\<lparr>heap := h'\<rparr>\<rparr>))"

definition assign :: "'k podem \<Rightarrow> nat \<Rightarrow> val \<Rightarrow> 'k podem" where
  "assign p g v = p\<lparr>circuit := (circuit p)\<lparr>heap := set_output (heap (circuit p)) g v\<rparr>\<rparr>"

text \<open>
  \<open>podem_recursive\<close>, with the fuel bounding the recursion depth (and the loops it
  calls): the result is the returned flag and the state left behind.
\<close>

fun podem_recursive :: "nat \<Rightarrow> 'k podem \<Rightarrow> (bool \<times> 'k podem) option" where
  "podem_recursive 0 p = None"
| "podem_recursive (Suc n) p =
     (if success p then Some (True, p)
      else
        case get_objective p of
          None \<Rightarrow> None
        | Some (None, objective_value, p1) \<Rightarrow> Some (False, p1)
        | Some (Some objective_gate, objective_value, p1) \<Rightarrow>
            (case backtrace n (heap (circuit p1)) objective_gate objective_value of
               None \<Rightarrow> None
             | Some (target_pi, target_pi_value) \<Rightarrow>
                 (case imply n (assign p1 target_pi target_pi_value) of
                    None \<Rightarrow> None
                  | Some p2 \<Rightarrow>
                      (case podem_recursive n p2 of
                         None \<Rightarrow> None
                       | Some (True, p3) \<Rightarrow> Some (True, p3)
                       | Some (False, p3) \<Rightarrow>
                           (case imply n (assign p3 target_pi (oppositeVal target_pi_value)) of
                              None \<Rightarrow> None
                            | Some p4 \<Rightarrow>
                                (case podem_recursive n p4 of
                                   None \<Rightarrow> None
                                 | Some (True, p5) \<Rightarrow> Some (True, p5)
                                 | Some (False, p5) \<Rightarrow>
                                     (case imply n (assign p5 target_pi VX) of
                                        None \<Rightarrow> None
                                      | Some p6 \<Rightarrow> Some (False, p6))))))))"

text \<open>
  \<open>generate_test_vector\<close> in its steps: the preparation (steps 1 and 2), the search,
  the clean-up (step 4) and the pattern read from the primary inputs.
\<close>

definition set_fault :: "store \<Rightarrow> nat \<Rightarrow> bool \<Rightarrow> val \<Rightarrow> store" where
  "set_fault h g f v = h(g := (h g)\<lparr>faulty := f, fault_value := v\<rparr>)"

definition prepare_fault :: "'k podem \<Rightarrow> 'k \<times> int \<Rightarrow> 'k podem option" where
  "prepare_fault p fault =
     (let p1 = podem_init p in
      case map_of (gates (circuit p1)) (fst fault) of
        None \<Rightarrow> None
      | Some fg \<Rightarrow>
          Some (p1\<lparr>fault_gate := Some fg,
                   circuit := (circuit p1)\<lparr>heap := set_fault (heap (circuit p1)) fg True
                                                    (if snd fault = 1 then V1 else V0)\<rparr>\<rparr>))"

definition clear_fault :: "'k podem \<Rightarrow> 'k podem" where
  "clear_fault p =
     (case fault_gate p of
        None \<Rightarrow> podem_reset p
      | Some fg \<Rightarrow>
          podem_reset (p\<lparr>circuit := (circuit p)\<lparr>heap := set_fault (heap (circuit p)) fg False VNone\<rparr>\<rparr>))"

definition pattern_value :: "val \<Rightarrow> val" where
  "pattern_value val = (if val = VD then V1 else if val = VDbar then V0 else val)"

definition test_vector_of :: "'k podem \<Rightarrow> val list" where
  "test_vector_of p =
     map (\<lambda>g. pattern_value (output (heap (circuit p) g))) (primary_inputs (circuit p))"

definition generate_test_vector ::
  "nat \<Rightarrow> 'k podem \<Rightarrow> 'k \<times> int \<Rightarrow> (val list option \<times> 'k podem) option" where
  "generate_test_vector n p fault =
     (case prepare_fault p fault of
        None \<Rightarrow> None
      | Some p1 \<Rightarrow>
          (case podem_recursive n p1 of
             None \<Rightarrow> None
           | Some (found, p2) \<Rightarrow>
               let p3 = clear_fault p2 in
               Some (if found then Some (test_vector_of p3) else None, p3)))"

text \<open>Two primary inputs feeding a two-input and gate that is the primary output.\<close>

definition and2_circuit :: "string circuit" where
  "and2_circuit =
     \<lparr>heap = empty_store
        (0 := Gate_init 1 ''a'' Inpt 1 0 [],
         1 := Gate_init 2 ''b'' Inpt 1 0 [],
         2 := (Gate_init 3 ''o'' And 0 2 [])\<lparr>inputs := [0, 1]\<rparr>),
      gates = [(''a'', 0), (''b'', 1), (''o'', 2)],
      primary_inputs = [0, 1],
      primary_outputs = [2]\<rparr>"

text \<open>
  The D-frontier in the specification's words: every gate of the circuit whose output
  is X, that has an input at D or D' and that passes the X-path check.
\<close>

definition spec_d_frontier :: "'k circuit \<Rightarrow> nat list" where
  "spec_d_frontier c =
     filter (\<lambda>g. output (heap c g) = VX
                 \<and> list_ex (\<lambda>inp. output (heap c inp) \<in> {VD, VDbar}) (inputs (heap c g))
                 \<and> x_path_check c g)
       (gate_values c)"

text \<open>
  The state PODEM reaches on \<open>branched_circuit\<close> for the fault \<open>a\<close> stuck-at-0 after
  its first assignment (\<open>a = 1\<close>) and implication: \<open>a\<close> and both its branches carry D,
  the two and gates they feed are still at X.
\<close>

definition activated_stem_state :: "string podem" where
  "activated_stem_state =
     the (imply 3 (assign (the (prepare_fault (PODEM_init (the (compute_scoap branched_circuit)))
                                 (''a'', 0)))
                     0 V1))"

text \<open>
  The controllability of the target value, and the children a backtrace step may
  descend into (those whose output is still X).
\<close>

definition target_cc :: "store \<Rightarrow> val \<Rightarrow> nat \<Rightarrow> cost" where
  "target_cc h v g = (if v = V0 then CC0 (h g) else CC1 (h g))"

definition x_children :: "store \<Rightarrow> nat \<Rightarrow> nat list" where
  "x_children h g = filter (\<lambda>c. output (h c) = VX) (inputs (h g))"

text \<open>
  The gate-kind/value pairs at which \<open>check_imply_gate\<close> holds, enumerated: the four
  pairs and/1, or/0, nand/0, nor/1 and, besides them, every other kind with 0 or 1.
\<close>

definition hardest_pair :: "kind \<Rightarrow> val \<Rightarrow> bool" where
  "hardest_pair t v =
     ((t = And \<and> v = V1) \<or> (t = Or \<and> v = V0) \<or> (t = Nand \<and> v = V0) \<or> (t = Nor \<and> v = V1)
      \<or> (t \<notin> {And, Or, Nand, Nor} \<and> (v = V0 \<or> v = V1)))"

text \<open>
  A two-input xor \<open>g = xor(a, m)\<close> with \<open>m = and(x, y)\<close>, after SCOAP and with all
  outputs at X as \<open>podem_init\<close> leaves them.
\<close>

definition xor_circuit :: "string circuit" where
  "xor_circuit =
     \<lparr>heap = empty_store
        (0 := Gate_init 1 ''a'' Inpt 1 0 [],
         1 := Gate_init 2 ''x'' Inpt 1 0 [],
         2 := Gate_init 3 ''y'' Inpt 1 0 [],
         3 := (Gate_init 4 ''m'' And 1 2 [])\<lparr>inputs := [1, 2]\<rparr>,
         4 := (Gate_init 5 ''g'' Xor 0 2 [])\<lparr>inputs := [0, 3]\<rparr>),
      gates = [(''a'', 0), (''x'', 1), (''y'', 2), (''m'', 3), (''g'', 4)],
      primary_inputs = [0, 1, 2],
      primary_outputs = [4]\<rparr>"

definition xor_store :: store where
  "xor_store = heap (circuit (podem_init (PODEM_init (the (compute_scoap xor_circuit)))))"

text \<open>
  A key that embeds the costs into a linear order (integers below \<open>Inf\<close>), used to
  reason about \<open>cle\<close> and \<open>clt\<close>.
\<close>

definition ckey :: "cost \<Rightarrow> nat \<times> int" where
  "ckey a = (case a of Fin i \<Rightarrow> (0, i) | Inf \<Rightarrow> (1, 0))"

text \<open>The store of \<open>and2_circuit\<close> after SCOAP and \<open>podem_init\<close>.\<close>

definition and2_store :: store where
  "and2_store = heap (circuit (podem_init (PODEM_init (the (compute_scoap and2_circuit)))))"

section \<open>The ATPG-stage parser (src/step3/Circuit.py, load_iscas_file)\<close>

text \<open>
  The lines of an ISCAS file as the parser's two regular expressions and its fall-through
  classify them: a gate declaration (address, name, type, fanout, fanin, faults), a
  fanout branch (address, name, source address, faults), a line of integers (input
  addresses, possibly followed by a delay), or a comment or blank line.
\<close>

datatype line =
    GateLine int string kind int int "string list"
  | BranchLine int string int "string list"
  | NumbersLine "int list"
  | Ignored

text \<open>
  The state of the loop: the circuit under construction (its \<open>gates\<close> keyed by
  address), \<open>current_gate\<close>, \<open>fanout_counter\<close>, and the next unused object reference.
\<close>

record parser =
  circ :: "int circuit"
  current_gate :: "nat option"
  fanout_counter :: "(string \<times> nat) list"
  next_ref :: nat

definition parser_init :: parser where
  "parser_init =
     \<lparr>circ = \<lparr>heap = empty_store, gates = [], primary_inputs = [], primary_outputs = []\<rparr>,
      current_gate = None, fanout_counter = [], next_ref = 0\<rparr>"

text \<open>\<open>str\<close> of a non-negative integer.\<close>

fun string_of_nat :: "nat \<Rightarrow> string" where
  "string_of_nat n =
     (if n < 10 then [char_of (48 + n)]
      else string_of_nat (n div 10) @ [char_of (48 + n mod 10)])"

declare string_of_nat.simps [simp del]

text \<open>\<open>self.gates[address] = gate\<close> for a newly constructed gate object.\<close>

definition store_gate :: "parser \<Rightarrow> int \<Rightarrow> gate \<Rightarrow> parser" where
  "store_gate st a g =
     st\<lparr>circ := (circ st)\<lparr>heap := (heap (circ st))(next_ref st := g),
                            gates := AList.update a (next_ref st) (gates (circ st))\<rparr>,
        next_ref := Suc (next_ref st)\<rparr>"

text \<open>
  One iteration of the loop over the lines. \<open>None\<close> is the KeyError of a lookup of an
  address that has not been declared. The name of a declared gate is \<open>name[:-3]\<close>.
\<close>

fun parse_line :: "parser \<Rightarrow> line \<Rightarrow> parser option" where
  "parse_line st Ignored = Some st"
| "parse_line st (GateLine a n t fo fi fs) =
     Some ((store_gate st a (Gate_init a (take (length n - 3) n) t fo fi fs))
             \<lparr>current_gate := Some (next_ref st)\<rparr>)"
| "parse_line st (BranchLine branch_address branch_name source_address fs) =
     (case map_of (gates (circ st)) source_address of
        None \<Rightarrow> None
      | Some src \<Rightarrow>
          let base_name = name (heap (circ st) src);
              k = (case map_of (fanout_counter st) base_name of None \<Rightarrow> 0 | Some k \<Rightarrow> k) + 1;
              st1 = st\<lparr>fanout_counter := AList.update base_name k (fanout_counter st)\<rparr>;
              branch_gate = (Gate_init branch_address (base_name @ ''_'' @ string_of_nat k)
                               Fanout 1 1 fs)\<lparr>inputs := [src]\<rparr>
          in Some (store_gate st1 branch_address branch_gate))"
| "parse_line st (NumbersLine parts) =
     (case current_gate st of
        None \<Rightarrow> Some st
      | Some cg \<Rightarrow>
          let has_delay = (int (length parts) = fanin (heap (circ st) cg) + 1);
              d = (if has_delay then last parts else 0);
              parts1 = (if has_delay then butlast parts else parts)
          in case those (map (map_of (gates (circ st))) parts1) of
               None \<Rightarrow> None
             | Some refs \<Rightarrow>
                 Some (st\<lparr>circ := (circ st)\<lparr>heap := (heap (circ st))
                              (cg := (heap (circ st) cg)\<lparr>inputs := refs, delay := d\<rparr>)\<rparr>\<rparr>))"

fun parse_lines :: "parser \<Rightarrow> line list \<Rightarrow> parser option" where
  "parse_lines st [] = Some st"
| "parse_lines st (l # ls) =
     (case parse_line st l of None \<Rightarrow> None | Some st' \<Rightarrow> parse_lines st' ls)"

text \<open>
  The dictionary comprehension \<open>{value.name: value for key, value in self.gates.items()}\<close>:
  a later item with the same name replaces the value of the earlier key.
\<close>

fun rekey :: "store \<Rightarrow> (string \<times> nat) list \<Rightarrow> (int \<times> nat) list \<Rightarrow> (string \<times> nat) list" where
  "rekey h d [] = d"
| "rekey h d ((key, v) # items) = rekey h (AList.update (name (h v)) v d) items"

definition load_iscas_file :: "line list \<Rightarrow> string circuit option" where
  "load_iscas_file lines =
     (case parse_lines parser_init lines of
        None \<Rightarrow> None
      | Some st \<Rightarrow>
          Some \<lparr>heap = heap (circ st), gates = rekey (heap (circ st)) [] (gates (circ st)),
                primary_inputs = [], primary_outputs = []\<rparr>)"

definition identify_primary_ios :: "'k circuit \<Rightarrow> 'k circuit" where
  "identify_primary_ios c =
     c\<lparr>primary_inputs := primary_inputs c @ filter (\<lambda>g. gtype (heap c g) = Inpt) (gate_values c),
       primary_outputs := primary_outputs c @ filter (\<lambda>g. fanout (heap c g) = 0) (gate_values c)\<rparr>"

definition Circuit_init :: "line list \<Rightarrow> string circuit option" where
  "Circuit_init lines = map_option identify_primary_ios (load_iscas_file lines)"

text \<open>The addresses that the declaration lines of a file bind.\<close>

fun declared_addresses :: "line list \<Rightarrow> int list" where
  "declared_addresses [] = []"
| "declared_addresses (GateLine a n t fo fi fs # ls) = a # declared_addresses ls"
| "declared_addresses (BranchLine a n s fs # ls) = a # declared_addresses ls"
| "declared_addresses (l # ls) = declared_addresses ls"

text \<open>
  A small netlist in which two declared names, \<open>a123\<close> and \<open>a456\<close>, lose their last
  three characters to the same name \<open>a\<close>.
\<close>

definition colliding_lines :: "line list" where
  "colliding_lines =
     [Ignored,
      GateLine 1 ''a123'' Inpt 1 0 [''>sa1''],
      GateLine 2 ''a456'' Inpt 1 0 [''>sa1''],
      GateLine 3 ''o1gat'' And 0 2 [''>sa0'', ''>sa1''],
      NumbersLine [1, 2]]"

text \<open>
  A netlist that declares the address 1 twice; the three declared names lose their last
  three characters to the same name \<open>a\<close>.
\<close>

definition redeclared_lines :: "line list" where
  "redeclared_lines =
     [GateLine 1 ''a123'' Inpt 1 0 [''>sa1''],
      GateLine 2 ''a456'' Inpt 1 0 [''>sa1''],
      GateLine 1 ''a789'' Inpt 1 0 [''>sa1'']]"

section \<open>The zero-delay evaluator (src/step1/step1.py, run_simulation_for_vectors)\<close>

text \<open>
  The circuits of step1 and step2 key their gates by address. A test vector is a time
  step and a dictionary from input addresses to values.
\<close>

type_synonym test_vector = "int \<times> (int \<times> val) list"

text \<open>The first inner loop: every \<open>inpt\<close> gate takes its value, or U when the vector has none.\<close>

fun init_inputs_step1 :: "store \<Rightarrow> (int \<times> val) list \<Rightarrow> (int \<times> nat) list \<Rightarrow> store" where
  "init_inputs_step1 h input_vector [] = h"
| "init_inputs_step1 h input_vector ((a, g) # items) =
     init_inputs_step1
       (if gtype (h g) = Inpt
        then set_output h g (case map_of input_vector a of None \<Rightarrow> VU | Some v \<Rightarrow> v)
        else h)
       input_vector items"

text \<open>The second inner loop: \<open>gate.evaluate()\<close> on every gate in the dictionary's order.\<close>

definition gate_evaluate_step1 :: "store \<Rightarrow> nat \<Rightarrow> store option" where
  "gate_evaluate_step1 h g =
     map_option (set_output h g)
       (evaluate_step1 (gtype (h g)) (map (\<lambda>i. output (h i)) (inputs (h g))) (output (h g)))"

fun propagate_step1 :: "store \<Rightarrow> nat list \<Rightarrow> store option" where
  "propagate_step1 h [] = Some h"
| "propagate_step1 h (g # gs) =
     (case gate_evaluate_step1 h g of None \<Rightarrow> None | Some h' \<Rightarrow> propagate_step1 h' gs)"

text \<open>One iteration of the loop over the test vectors, without the report.\<close>

definition simulate_vector_step1 :: "int circuit \<Rightarrow> test_vector \<Rightarrow> int circuit option" where
  "simulate_vector_step1 c tv =
     map_option (\<lambda>h. c\<lparr>heap := h\<rparr>)
       (propagate_step1 (init_inputs_step1 (heap c) (snd tv) (gates c)) (gate_values c))"

fun run_simulation_step1 :: "int circuit \<Rightarrow> test_vector list \<Rightarrow> int circuit option" where
  "run_simulation_step1 c [] = Some c"
| "run_simulation_step1 c (tv # tvs) =
     (case simulate_vector_step1 c tv of None \<Rightarrow> None | Some c' \<Rightarrow> run_simulation_step1 c' tvs)"

section \<open>The event-driven simulator (src/step2/step2.py)\<close>

text \<open>
  A \<open>heapq\<close> heap is represented by the sorted list of its elements: index 0 is the
  least element and \<open>heappop\<close> removes it. A gate's \<open>scheduled_events\<close> hold
  \<open>(event_time, pending_output)\<close>; \<open>evaluate\<close> removes the events of the new event's
  time before it pushes, so the push never meets an equal time and the order is that of
  the times. The global queue holds \<open>(fire_time, address, gate)\<close>, ordered by time,
  then address (two entries that agree on both are the same gate of the dictionary).
\<close>

definition heappush_event :: "(int \<times> val) list \<Rightarrow> int \<times> val \<Rightarrow> (int \<times> val) list" where
  "heappush_event es e = insort_key fst e es"

type_synonym timing_queue = "(int \<times> int \<times> nat) list"

definition heappush_timing :: "timing_queue \<Rightarrow> int \<times> int \<times> nat \<Rightarrow> timing_queue" where
  "heappush_timing q e = insort_key (\<lambda>(t, a, g). (t, a)) e q"

text \<open>
  \<open>Gate.evaluate(current_time)\<close> of step2 on the gate object \<open>g\<close>; \<open>None\<close> is the
  ValueError of \<open>int(inp)\<close>.
\<close>

definition evaluate_step2 :: "store \<Rightarrow> nat \<Rightarrow> int \<Rightarrow> store option" where
  "evaluate_step2 h g current_time =
     (if gtype (h g) = Inpt then Some h
      else
        case pending_output_step2 (gtype (h g)) (map (\<lambda>i. output (h i)) (inputs (h g))) of
          None \<Rightarrow> None
        | Some pending_output \<Rightarrow>
            let event_time = current_time + delay (h g);
                kept = filter (\<lambda>(et, po). et \<noteq> event_time) (scheduled_events (h g))
            in Some (h(g := (h g)\<lparr>scheduled_events := heappush_event kept (event_time, pending_output),
                                  last_input_event_time := current_time\<rparr>)))"

text \<open>\<open>Gate.update_output(current_time)\<close>: the loop on the events and the output.\<close>

fun update_output_loop :: "(int \<times> val) list \<Rightarrow> int \<Rightarrow> val \<Rightarrow> (int \<times> val) list \<times> val" where
  "update_output_loop [] current_time out = ([], out)"
| "update_output_loop ((event_time, output_value) # es) current_time out =
     (if event_time \<le> current_time then update_output_loop es current_time output_value
      else ((event_time, output_value) # es, out))"

definition update_output :: "store \<Rightarrow> nat \<Rightarrow> int \<Rightarrow> store" where
  "update_output h g current_time =
     (case update_output_loop (scheduled_events (h g)) current_time (output (h g)) of
        (es, out) \<Rightarrow> h(g := (h g)\<lparr>scheduled_events := es, output := out\<rparr>))"

text \<open>
  The loop \<open>for fanout_gate in self.gates.values(): if gate in fanout_gate.inputs: ...\<close>
  that both phases of the main loop run: evaluate the consumer and push it.
\<close>

fun schedule_fanouts ::
  "store \<Rightarrow> timing_queue \<Rightarrow> nat \<Rightarrow> int \<Rightarrow> nat list \<Rightarrow> (store \<times> timing_queue) option" where
  "schedule_fanouts h q gate current_time [] = Some (h, q)"
| "schedule_fanouts h q gate current_time (fanout_gate # fs) =
     (if gate \<in> set (inputs (h fanout_gate)) then
        (case evaluate_step2 h fanout_gate current_time of
           None \<Rightarrow> None
         | Some h' \<Rightarrow>
             schedule_fanouts h'
               (heappush_timing q
                  (current_time + delay (h' fanout_gate), address (h' fanout_gate), fanout_gate))
               gate current_time fs)
      else schedule_fanouts h q gate current_time fs)"

text \<open>The stimulus phase: the loop over \<open>self.gates.items()\<close>.\<close>

fun apply_test_vector ::
  "nat list \<Rightarrow> (int \<times> val) list \<Rightarrow> int \<Rightarrow> store \<Rightarrow> timing_queue \<Rightarrow> (int \<times> nat) list
   \<Rightarrow> (store \<times> timing_queue) option" where
  "apply_test_vector vals input_vector current_time h q [] = Some (h, q)"
| "apply_test_vector vals input_vector current_time h q ((a, gate) # items) =
     (case map_of input_vector a of
        None \<Rightarrow> apply_test_vector vals input_vector current_time h q items
      | Some v \<Rightarrow>
          if gtype (h gate) = Inpt \<and> output (h gate) \<noteq> v then
            (case schedule_fanouts (set_output h gate v) q gate current_time vals of
               None \<Rightarrow> None
             | Some (h', q') \<Rightarrow> apply_test_vector vals input_vector current_time h' q' items)
          else apply_test_vector vals input_vector current_time h q items)"

text \<open>
  The body of the event phase's loop once \<open>heappop\<close> has taken \<open>gate\<close> off the queue:
  commit the gate's output, then evaluate and push its consumers.
\<close>

definition process_event ::
  "nat list \<Rightarrow> int \<Rightarrow> store \<Rightarrow> nat \<Rightarrow> timing_queue \<Rightarrow> (store \<times> timing_queue) option" where
  "process_event vals current_time h gate q =
     schedule_fanouts (update_output h gate current_time) q gate current_time vals"

text \<open>
  The event phase: \<open>while timing_queue and timing_queue[0][0] == current_time\<close>. The
  fuel bounds the number of iterations; \<open>None\<close> is an exhausted fuel (or an
  exception of an evaluation).
\<close>

fun process_events ::
  "nat \<Rightarrow> nat list \<Rightarrow> int \<Rightarrow> store \<Rightarrow> timing_queue \<Rightarrow> (store \<times> timing_queue) option" where
  "process_events 0 vals current_time h q = None"
| "process_events (Suc n) vals current_time h [] = Some (h, [])"
| "process_events (Suc n) vals current_time h ((t, a, gate) # q) =
     (if t = current_time then
        (case process_event vals current_time h gate q of
           None \<Rightarrow> None
         | Some (h', q') \<Rightarrow> process_events n vals current_time h' q')
      else Some (h, (t, a, gate) # q))"

text \<open>
  The state of \<open>run_simulation_for_vectors\<close> of step2 between two iterations of its main
  loop.
\<close>

record simulation =
  sim_heap :: store
  timing_queue :: timing_queue
  current_test_index :: nat
  all_outputs :: "(int \<times> (int \<times> val) list) list"
  last_logged_time :: int

definition simulation_init :: "store \<Rightarrow> simulation" where
  "simulation_init h =
     \<lparr>sim_heap = h, timing_queue = [], current_test_index = 0, all_outputs = [],
      last_logged_time = - 1\<rparr>"

text \<open>The logging step: copy the last snapshot forward, then record the current one.\<close>

fun copy_forward ::
  "(int \<times> (int \<times> val) list) list \<Rightarrow> int list \<Rightarrow> (int \<times> (int \<times> val) list) list" where
  "copy_forward log [] = log"
| "copy_forward log (t # ts) =
     copy_forward (case map_of log (t - 1) of None \<Rightarrow> log | Some snap \<Rightarrow> AList.update t snap log) ts"

definition log_outputs :: "nat list \<Rightarrow> int \<Rightarrow> simulation \<Rightarrow> simulation" where
  "log_outputs vals current_time s =
     (if current_time \<noteq> last_logged_time s then
        let log1 = (if last_logged_time s \<noteq> - 1 \<and> current_time > last_logged_time s + 1
                    then copy_forward (all_outputs s) [last_logged_time s + 1 .. current_time - 1]
                    else all_outputs s);
            snapshot = map (\<lambda>g. (address (sim_heap s g), output (sim_heap s g))) vals
        in s\<lparr>all_outputs := AList.update current_time snapshot log1,
              last_logged_time := current_time\<rparr>
      else s)"

text \<open>
  The main loop. Each call is one iteration: the next time is the minimum of the next
  stimulus time and the head of the queue (one of them exists while the loop runs).
\<close>

fun simulation_loop ::
  "nat \<Rightarrow> (int \<times> nat) list \<Rightarrow> test_vector list \<Rightarrow> simulation \<Rightarrow> simulation option" where
  "simulation_loop 0 items test_vectors s = None"
| "simulation_loop (Suc n) items test_vectors s =
     (if current_test_index s < length test_vectors \<or> timing_queue s \<noteq> [] then
        let vals = map snd items;
            next_test_time = (if current_test_index s < length test_vectors
                              then Some (fst (test_vectors ! current_test_index s)) else None);
            next_queue_time = (case timing_queue s of [] \<Rightarrow> None | (t, a, g) # q \<Rightarrow> Some t);
            current_time = (case (next_test_time, next_queue_time) of
                              (Some a, Some b) \<Rightarrow> min a b
                            | (Some a, None) \<Rightarrow> a
                            | (None, Some b) \<Rightarrow> b
                            | (None, None) \<Rightarrow> 0)
        in
        case (if next_test_time = Some current_time then
                map_option (\<lambda>(h, q). (h, q, Suc (current_test_index s)))
                  (apply_test_vector vals (snd (test_vectors ! current_test_index s)) current_time
                     (sim_heap s) (timing_queue s) items)
              else Some (sim_heap s, timing_queue s, current_test_index s)) of
          None \<Rightarrow> None
        | Some (h1, q1, idx) \<Rightarrow>
            (case process_events n vals current_time h1 q1 of
               None \<Rightarrow> None
             | Some (h2, q2) \<Rightarrow>
                 let s2 = log_outputs vals current_time
                            (s\<lparr>sim_heap := h2, timing_queue := q2, current_test_index := idx\<rparr>)
                 in if q2 = [] \<and> \<not> idx < length test_vectors then Some s2
                    else simulation_loop n items test_vectors s2)
      else Some s)"

definition run_simulation_step2 ::
  "nat \<Rightarrow> int circuit \<Rightarrow> test_vector list \<Rightarrow> simulation option" where
  "run_simulation_step2 n c test_vectors =
     simulation_loop n (gates c) test_vectors (simulation_init (heap c))"

subsection \<open>Example netlists for the simulators\<close>

text \<open>A two-input and gate, keyed by address.\<close>

definition and_gate_circuit :: "int circuit" where
  "and_gate_circuit =
     \<lparr>heap = empty_store
        (0 := Gate_init 1 ''a'' Inpt 1 0 [],
         1 := Gate_init 2 ''b'' Inpt 1 0 [],
         2 := (Gate_init 3 ''g'' And 0 2 [])\<lparr>inputs := [0, 1]\<rparr>),
      gates = [(1, 0), (2, 1), (3, 2)],
      primary_inputs = [],
      primary_outputs = []\<rparr>"

text \<open>
  \<open>g = and(a, n)\<close> with \<open>n = not(a)\<close>, all delays zero; \<open>n\<close> is declared before \<open>g\<close>
  but carries the larger address (5 against 2).
\<close>

definition hazard_circuit :: "int circuit" where
  "hazard_circuit =
     \<lparr>heap = empty_store
        (0 := Gate_init 1 ''a'' Inpt 2 0 [],
         1 := (Gate_init 5 ''n'' Not 1 1 [])\<lparr>inputs := [0]\<rparr>,
         2 := (Gate_init 2 ''g'' And 0 2 [])\<lparr>inputs := [0, 1]\<rparr>),
      gates = [(1, 0), (5, 1), (2, 2)],
      primary_inputs = [],
      primary_outputs = []\<rparr>"

text \<open>The store of \<open>hazard_circuit\<close> once the stimulus \<open>a = 0\<close> at time 0 has settled.\<close>

definition hazard_settled :: store where
  "hazard_settled = sim_heap (the (run_simulation_step2 5 hazard_circuit [(0, [(1, V0)])]))"

text \<open>
  Two schedulings of the and gate of \<open>and_gate_circuit\<close> at time 0: the first after
  \<open>a\<close> became 1, the second after \<open>b\<close> became 1 as well.
\<close>

definition first_scheduling :: store where
  "first_scheduling = the (evaluate_step2 (set_output (heap and_gate_circuit) 0 V1) 2 0)"

definition second_scheduling :: store where
  "second_scheduling = the (evaluate_step2 (set_output first_scheduling 1 V1) 2 0)"

section \<open>Well-formedness used to compare the two simulators\<close>

text \<open>
  The dictionary's order is topological and its values are distinct: every input of a
  gate is a gate declared before it.
\<close>

fun topo_from :: "store \<Rightarrow> nat list \<Rightarrow> nat list \<Rightarrow> bool" where
  "topo_from h pre [] = True"
| "topo_from h pre (g # gs) =
     (set (inputs (h g)) \<subseteq> set pre \<and> g \<notin> set pre \<and> topo_from h (pre @ [g]) gs)"

definition topological :: "store \<Rightarrow> nat list \<Rightarrow> bool" where
  "topological h vals = topo_from h [] vals"

text \<open>
  A freshly parsed netlist with zero delays: every gate has delay 0, output U and no
  scheduled event; exactly the \<open>inpt\<close> gates have no inputs.
\<close>

definition fresh_zero_delay :: "int circuit \<Rightarrow> bool" where
  "fresh_zero_delay c =
     (topological (heap c) (gate_values c)
      \<and> list_all (\<lambda>g. delay (heap c g) = 0 \<and> output (heap c g) = VU
                       \<and> scheduled_events (heap c g) = []
                       \<and> ((gtype (heap c g) = Inpt) = (inputs (heap c g) = [])))
           (gate_values c))"

text \<open>The values 0, 1 and U (no Z).\<close>

definition known_or_U :: "val \<Rightarrow> bool" where
  "known_or_U v = (v = V0 \<or> v = V1 \<or> v = VU)"

definition vector_without_Z :: "(int \<times> val) list \<Rightarrow> bool" where
  "vector_without_Z input_vector = list_all (\<lambda>(a, v). known_or_U v) input_vector"

text \<open>
  The number of events that one event on a gate entails in a zero-delay netlist: itself
  and, for each consumer among the gates that follow, the events of that consumer.
\<close>

fun event_weight :: "store \<Rightarrow> nat list \<Rightarrow> nat \<Rightarrow> nat" where
  "event_weight h [] g = 1"
| "event_weight h (c # cs) g =
     (if g \<in> set (inputs (h c)) then event_weight h cs c else 0) + event_weight h cs g"

definition queue_weight :: "store \<Rightarrow> nat list \<Rightarrow> timing_queue \<Rightarrow> nat" where
  "queue_weight h vals q = sum_list (map (\<lambda>(t, a, g). event_weight h vals g) q)"

text \<open>The value a scheduling leaves pending for a gate: its latest event's, else its output.\<close>

definition pending_value :: "store \<Rightarrow> nat \<Rightarrow> val" where
  "pending_value h g = (case scheduled_events (h g) of [] \<Rightarrow> output (h g) | (t, v) # es \<Rightarrow> v)"

section \<open>The invariant of the zero-delay event phase\<close>

text \<open>
  The facts about the netlist that never change during a simulation: topological order,
  zero delays, and inputs exactly on the gates that are not an \<open>inpt\<close>.
\<close>

definition static_netlist :: "store \<Rightarrow> nat list \<Rightarrow> bool" where
  "static_netlist h0 vals =
     (topological h0 vals
      \<and> (\<forall>g \<in> set vals. delay (h0 g) = 0 \<and> ((gtype (h0 g) = Inpt) = (inputs (h0 g) = []))))"

text \<open>The store \<open>h\<close> has the netlist of \<open>h0\<close>: simulation writes outputs and events only.\<close>

definition same_structure :: "store \<Rightarrow> store \<Rightarrow> bool" where
  "same_structure h0 h =
     (\<forall>x. gtype (h x) = gtype (h0 x) \<and> inputs (h x) = inputs (h0 x) \<and> delay (h x) = delay (h0 x))"

text \<open>
  The invariant of a gate at stimulus time \<open>T\<close>: its output is 0, 1 or U; at most
  one event is pending, for time \<open>T\<close>; a gate with a pending event is on the global
  queue; an \<open>inpt\<close> gate has no event; and, unless the gate is \<open>stale\<close> (an input
  changed and the gate has not been scheduled again yet), its pending value is what its
  evaluation yields on the current outputs of its inputs.
\<close>

definition gate_inv :: "int \<Rightarrow> store \<Rightarrow> timing_queue \<Rightarrow> nat set \<Rightarrow> nat \<Rightarrow> bool" where
  "gate_inv T h q stale g =
     (known_or_U (output (h g))
      \<and> (scheduled_events (h g) = [] \<or> (\<exists>v. scheduled_events (h g) = [(T, v)] \<and> known_or_U v))
      \<and> (scheduled_events (h g) \<noteq> [] \<longrightarrow> g \<in> (\<lambda>(t, a, g). g) ` set q)
      \<and> (gtype (h g) = Inpt \<longrightarrow> scheduled_events (h g) = [])
      \<and> (gtype (h g) \<noteq> Inpt \<longrightarrow> g \<notin> stale \<longrightarrow>
            pending_output_step2 (gtype (h g)) (map (\<lambda>i. output (h i)) (inputs (h g)))
              = Some (pending_value h g)))"

definition sim_inv :: "store \<Rightarrow> nat list \<Rightarrow> int \<Rightarrow> store \<Rightarrow> timing_queue \<Rightarrow> nat set \<Rightarrow> bool" where
  "sim_inv h0 vals T h q stale =
     (same_structure h0 h
      \<and> (\<forall>g \<in> set vals. gate_inv T h q stale g)
      \<and> (\<forall>e \<in> set q. fst e = T \<and> snd (snd e) \<in> set vals))"

section \<open>Theorems\<close>

text \<open>
  Claim C3 at its failing input: an xor gate in D-algebra mode with the inputs
  \<open>D, D, 1\<close> (no U, Z or X among them). The parity rule gives good value
  \<open>(2 + 1) mod 2 = 1\<close> and faulty value \<open>(0 + 1) mod 2 = 1\<close>, that is the output 1.
  \<open>evaluate_xor\<close> reaches its last \<open>else\<close> (both counts of D and D' even, not both
  zero), which returns 0 without looking at the count of ones; \<open>evaluate_xnor\<close>
  inverts that to 1 where the rule gives 0. For two-input gates the code and the
  rule agree.
\<close>

theorem C3_xor_even_discrepancies_ignores_ones:
  "evaluate_xor [VD, VD, V1] False False False = Some V0
   \<and> spec_xor_parity [VD, VD, V1] = V1
   \<and> evaluate_xnor [VD, VD, V1] False False False = Some V1"
  by (simp add: evaluate_xor_def evaluate_xnor_def evaluate_not_def spec_xor_parity_def
      encode_pair_def)

text \<open>
  Claim C2, as stated, at the event-driven simulator: an \<open>and\<close> gate with inputs
  \<open>Z, 1\<close> has no controlling 0 and a Z, so the stated rule gives U; step2's
  evaluator has an explicit \<open>'Z' in input_values\<close> branch and schedules Z.
\<close>

theorem C2_step2_and_reports_Z:
  "pending_output_step2 And [VZ, V1] = Some VZ \<and> spec_cv_rule And [VZ, V1] = VU"
  by (simp add: pending_output_step2_def spec_cv_rule_def controlling_value_def
      controlled_output_def non_controlled_output_def)

text \<open>
  Claim C2, amended: for and, or, nand and nor and every list of input values, the
  zero-delay evaluator (step1) follows the stated rule (controlling value, else U on
  any U or Z with Z for nand when a Z and no U is present, else the non-controlling
  result); the event-driven simulator's evaluator (step2) follows the same rule with
  the Z exception for all four kinds, not only for nand.
\<close>

theorem C2_cv_rule_step1_and_step2:
  assumes kinds: "t \<in> {And, Or, Nand, Nor}"
  shows "evaluate_step1 t vs old = Some (spec_cv_rule t vs)
         \<and> pending_output_step2 t vs = Some (z_reporting_cv_rule t vs)"
proof -
  from kinds consider "t = And" | "t = Or" | "t = Nand" | "t = Nor"
    by auto
  then show ?thesis
  proof cases
    case 1
    then show ?thesis
      by (auto simp add: evaluate_step1_def pending_output_step2_def spec_cv_rule_def
          z_reporting_cv_rule_def controlling_value_def controlled_output_def
          non_controlled_output_def Let_def)
  next
    case 2
    then show ?thesis
      by (auto simp add: evaluate_step1_def pending_output_step2_def spec_cv_rule_def
          z_reporting_cv_rule_def controlling_value_def controlled_output_def
          non_controlled_output_def Let_def)
  next
    case 3
    then show ?thesis
      by (auto simp add: evaluate_step1_def pending_output_step2_def spec_cv_rule_def
          z_reporting_cv_rule_def controlling_value_def controlled_output_def
          non_controlled_output_def Let_def)
  next
    case 4
    then show ?thesis
      by (auto simp add: evaluate_step1_def pending_output_step2_def spec_cv_rule_def
          z_reporting_cv_rule_def controlling_value_def controlled_output_def
          non_controlled_output_def Let_def)
  qed
qed

theorem C2_cv_rule_witness:
  "Nand \<in> {And, Or, Nand, Nor}
   \<and> evaluate_step1 Nand [VZ, V1] VU = Some VZ
   \<and> pending_output_step2 Nand [VZ, V1] = Some VZ"
  using C2_cv_rule_step1_and_step2 [of Nand "[VZ, V1]" VU]
  by (simp add: spec_cv_rule_def z_reporting_cv_rule_def controlling_value_def
      controlled_output_def non_controlled_output_def)

subsection \<open>SCOAP: bounds and frames\<close>


lemma cle_Fin_cadd:
  "cle (Fin x) a \<Longrightarrow> cle (Fin y) b \<Longrightarrow> cle (Fin (x + y)) (cadd a b)"
  by (cases a; cases b) auto

lemma cle_Fin_weaken: "cle (Fin x) a \<Longrightarrow> y \<le> x \<Longrightarrow> cle (Fin y) a"
  by (cases a) auto

lemma cle_cmin: "cle c a \<Longrightarrow> cle c b \<Longrightarrow> cle c (cmin a b)"
  by (simp add: cmin_def)

lemma cle_foldl_cmin:
  "cle c x \<Longrightarrow> list_all (cle c) xs \<Longrightarrow> cle c (foldl cmin x xs)"
  by (induction xs arbitrary: x) (auto simp: cle_cmin)

lemma cle_min_cost:
  "min_cost xs = Some m \<Longrightarrow> list_all (cle c) xs \<Longrightarrow> cle c m"
  by (cases xs) (auto simp: cle_foldl_cmin)

lemma cle_foldl_cadd:
  "cle (Fin 0) a \<Longrightarrow> list_all (cle (Fin 0)) xs \<Longrightarrow> cle (Fin 0) (foldl cadd a xs)"
proof (induction xs arbitrary: a)
  case Nil
  then show ?case by simp
next
  case (Cons x xs)
  from Cons.prems have "cle (Fin (0 + 0)) (cadd a x)"
    by (intro cle_Fin_cadd) auto
  with Cons show ?case by simp
qed

lemma cle_sum_cost: "list_all (cle (Fin 0)) xs \<Longrightarrow> cle (Fin 0) (sum_cost xs)"
  by (simp add: sum_cost_def cle_foldl_cadd)

lemma cle_succ: "cle (Fin 0) a \<Longrightarrow> cle (Fin 1) (cadd a (Fin 1))"
  using cle_Fin_cadd [of 0 a 1 "Fin 1"] by simp


lemma cc_bounded_set_CC0: "cc_bounded h \<Longrightarrow> cle (Fin 1) v \<Longrightarrow> cc_bounded (set_CC0 h g v)"
  by (simp add: cc_bounded_def set_CC0_def)

lemma cc_bounded_set_CC1: "cc_bounded h \<Longrightarrow> cle (Fin 1) v \<Longrightarrow> cc_bounded (set_CC1 h g v)"
  by (simp add: cc_bounded_def set_CC1_def)

lemma cc_bounded_all0: "cc_bounded h \<Longrightarrow> list_all (cle (Fin 0)) (map (\<lambda>i. CC0 (h i)) xs)"
  by (auto simp: cc_bounded_def list_all_iff intro: cle_Fin_weaken)
lemma cc_bounded_all1: "cc_bounded h \<Longrightarrow> list_all (cle (Fin 0)) (map (\<lambda>i. CC1 (h i)) xs)"
  by (auto simp: cc_bounded_def list_all_iff intro: cle_Fin_weaken)
lemma cc_bounded_all0': "cc_bounded h \<Longrightarrow> list_all (cle (Fin 1)) (map (\<lambda>i. CC0 (h i)) xs)"
  by (auto simp: cc_bounded_def list_all_iff)
lemma cc_bounded_all1': "cc_bounded h \<Longrightarrow> list_all (cle (Fin 1)) (map (\<lambda>i. CC1 (h i)) xs)"
  by (auto simp: cc_bounded_def list_all_iff)

lemma cc_bounded_CC0: "cc_bounded h \<Longrightarrow> cle (Fin 1) (CC0 (h i))" by (simp add: cc_bounded_def)
lemma cc_bounded_CC1: "cc_bounded h \<Longrightarrow> cle (Fin 1) (CC1 (h i))" by (simp add: cc_bounded_def)

lemma cle_two: "cle (Fin 1) a \<Longrightarrow> cle (Fin 1) b \<Longrightarrow> cle (Fin 0) (cadd a b)"
  using cle_Fin_cadd [of 1 a 1 b] by (auto intro: cle_Fin_weaken)


lemma cle_min_cost1:
  "min_cost (map f xs) = Some m \<Longrightarrow> (\<And>x. cle (Fin 1) (f x)) \<Longrightarrow> cle (Fin 0) m"
  by (rule cle_Fin_weaken [OF cle_min_cost [where c = "Fin 1"]]) (auto simp: list_all_iff)

lemma cle_sum_cost1: "(\<And>x. cle (Fin 1) (f x)) \<Longrightarrow> cle (Fin 0) (sum_cost (map f xs))"
  by (rule cle_sum_cost) (auto simp: list_all_iff intro: cle_Fin_weaken [where x = 1])

lemma cle_one_zero: "cle (Fin 1) a \<Longrightarrow> cle (Fin 0) a"
  by (erule cle_Fin_weaken) simp

lemmas cc_simps = cc_bounded_set_CC0 cc_bounded_set_CC1 cle_succ cle_sum_cost1 cle_min_cost1
  cle_cmin cle_two cc_bounded_CC0 cc_bounded_CC1 

lemma forward_step_cc_bounded:
  assumes "forward_step h g = Some h'" "cc_bounded h"
  shows "cc_bounded h'"
proof (cases "gtype (h g)")
  case And
  with assms show ?thesis
  by (auto simp: forward_step_def Let_def cc_simps split: bind_splits)
next
  case Or
  with assms show ?thesis
  by (auto simp: forward_step_def Let_def cc_simps split: bind_splits)
next
  case Nand
  with assms show ?thesis 
  by (auto simp: forward_step_def Let_def cc_simps split: bind_splits)
next
  case Nor
  with assms show ?thesis 
  by (auto simp: forward_step_def Let_def cc_simps split: bind_splits)
next
  case Xor
  with assms show ?thesis 
  by (auto simp: forward_step_def Let_def cc_simps split: bind_splits)
next
  case Xnor
  with assms show ?thesis 
  by (auto simp: forward_step_def Let_def cc_simps split: bind_splits)
next
  case Not
  with assms show ?thesis 
  by (auto simp: forward_step_def Let_def cc_simps cle_one_zero split: bind_splits)
next
  case Buf
  with assms show ?thesis 
  by (auto simp: forward_step_def Let_def cc_simps split: bind_splits)
next
  case Fanout
  with assms show ?thesis 
  by (auto simp: forward_step_def Let_def cc_simps split: bind_splits)
qed (use assms in \<open>auto simp: forward_step_def\<close>)



lemma only_CO_refl: "only_CO h h"
  by (simp add: only_CO_def)

lemma only_CO_set_CO: "only_CO h h' \<Longrightarrow> only_CO h (set_CO h' a v)"
  unfolding only_CO_def set_CO_def
proof (intro allI)
  fix i assume a: "\<forall>i. h' i = (h i)\<lparr>CO := CO (h' i)\<rparr>"
  then have "h' i = (h i)\<lparr>CO := CO (h' i)\<rparr>" by blast
  then obtain x where "h' i = (h i)\<lparr>CO := x\<rparr>" by blast
  then show "(h'(a := (h' a)\<lparr>CO := v\<rparr>)) i = (h i)\<lparr>CO := CO ((h'(a := (h' a)\<lparr>CO := v\<rparr>)) i)\<rparr>"
    by (cases "i = a") simp_all
qed

lemma only_CO_fields:
  assumes "only_CO h h'"
  shows "gtype (h' i) = gtype (h i)" "inputs (h' i) = inputs (h i)" "fanout (h' i) = fanout (h i)"
    "CC0 (h' i) = CC0 (h i)" "CC1 (h' i) = CC1 (h i)"
proof -
  from assms have e: "h' i = (h i)\<lparr>CO := CO (h' i)\<rparr>" by (simp add: only_CO_def)
  show "gtype (h' i) = gtype (h i)" by (subst e) simp
  show "inputs (h' i) = inputs (h i)" by (subst e) simp
  show "fanout (h' i) = fanout (h i)" by (subst e) simp
  show "CC0 (h' i) = CC0 (h i)" by (subst e) simp
  show "CC1 (h' i) = CC1 (h i)" by (subst e) simp
qed

lemma backward_xor_only_CO:
  "backward_xor h g js = Some h' \<Longrightarrow> only_CO h0 h \<Longrightarrow> only_CO h0 h'"
proof (induction js arbitrary: h)
  case Nil
  then show ?case by simp
next
  case (Cons j js)
  then show ?case
    by (auto split: bind_splits simp: Let_def intro: only_CO_set_CO)
qed

lemma backward_step_only_CO:
  assumes "backward_step vals h g = Some h'"
  shows "only_CO h h'"
proof -
  let ?h = "if fanout (h g) = 0 then set_CO h g (Fin 0) else h"
  have a: "only_CO h ?h" by (simp add: only_CO_refl only_CO_set_CO)
  show ?thesis
  proof (cases "gtype (?h g) = Xor \<or> gtype (?h g) = Xnor")
    case True
    with assms have "backward_xor ?h g [0 ..< length (inputs (?h g))] = Some h'"
      by (auto simp: backward_step_def Let_def)
    then show ?thesis using a by (rule backward_xor_only_CO)
  next
    case False
    with assms a show ?thesis
      by (auto simp: backward_step_def Let_def split: bind_splits if_splits
          intro!: only_CO_set_CO)
  qed
qed



lemma co_bounded_set_CO: "co_bounded h \<Longrightarrow> cle (Fin 0) v \<Longrightarrow> co_bounded (set_CO h a v)"
  by (simp add: co_bounded_def set_CO_def)

lemma co_bounded_CO: "co_bounded h \<Longrightarrow> cle (Fin 0) (CO (h i))"
  by (simp add: co_bounded_def)

lemma cc_bounded_set_CO: "cc_bounded h \<Longrightarrow> cc_bounded (set_CO h a v)"
  by (simp add: cc_bounded_def set_CO_def)

lemma cle_zero_add: "cle (Fin 0) a \<Longrightarrow> cle (Fin 0) b \<Longrightarrow> cle (Fin 0) (cadd a b)"
  using cle_Fin_cadd [of 0 a 0 b] by simp

lemma cle_zero_one: "cle (Fin 0) (Fin 1)" "cle (Fin 0) (Fin 0)"
  by simp_all

lemmas co_simps = co_bounded_set_CO co_bounded_CO cc_bounded_set_CO cle_zero_add cle_zero_one
  cc_bounded_CC0 [THEN cle_one_zero] cc_bounded_CC1 [THEN cle_one_zero] cle_min_cost1

lemma backward_xor_co_bounded:
  "backward_xor h g js = Some h' \<Longrightarrow> co_bounded h \<Longrightarrow> cc_bounded h \<Longrightarrow> co_bounded h'"
proof (induction js arbitrary: h)
  case Nil
  then show ?case by simp
next
  case (Cons j js)
  from Cons.prems obtain m0 m1 where
    m0: "min_cost (map (\<lambda>j. CC0 (h j)) (other_inputs h g j)) = Some m0" and
    m1: "min_cost (map (\<lambda>j. CC1 (h j)) (other_inputs h g j)) = Some m1" and
    rest: "backward_xor (set_CO h (inputs (h g) ! j) (cadd (cadd (CO (h g)) (cadd m0 m1)) (Fin 1)))
            g js = Some h'"
    by (auto split: bind_splits simp: Let_def)
  have "cle (Fin 0) m0"
    by (rule cle_min_cost1 [OF m0]) (simp add: cc_bounded_CC0 [OF Cons.prems(3)])
  moreover have "cle (Fin 0) m1"
    by (rule cle_min_cost1 [OF m1]) (simp add: cc_bounded_CC1 [OF Cons.prems(3)])
  ultimately have "cle (Fin 0) (cadd (cadd (CO (h g)) (cadd m0 m1)) (Fin 1))"
    using Cons.prems(2) by (simp add: co_simps)
  with Cons.prems have "co_bounded (set_CO h (inputs (h g) ! j) (cadd (cadd (CO (h g)) (cadd m0 m1)) (Fin 1)))"
    by (simp add: co_simps)
  with Cons.IH [OF rest] Cons.prems show ?case by (simp add: co_simps)
qed

lemma backward_step_co_bounded:
  assumes "backward_step vals h g = Some h'" "co_bounded h" "cc_bounded h"
  shows "co_bounded h'"
proof -
  let ?h = "if fanout (h g) = 0 then set_CO h g (Fin 0) else h"
  have a: "co_bounded ?h" "cc_bounded ?h" using assms by (simp_all add: co_simps)
  show ?thesis
  proof (cases "gtype (?h g) = Xor \<or> gtype (?h g) = Xnor")
    case True
    with assms have "backward_xor ?h g [0 ..< length (inputs (?h g))] = Some h'"
      by (auto simp: backward_step_def Let_def)
    then show ?thesis using a by (rule backward_xor_co_bounded)
  next
    case False
    with assms(1) a show ?thesis
      by (auto simp: backward_step_def Let_def co_simps split: bind_splits if_splits)
  qed
qed

lemma nth_input_mem: "nth_input h g k = Some a \<Longrightarrow> a \<in> set (inputs (h g))"
  by (auto simp: nth_input_def split: if_splits)

lemma CO_set_CO: "CO (set_CO h a v i) = (if i = a then v else CO (h i))"
  by (simp add: set_CO_def)

lemma inputs_set_CO: "inputs (set_CO h a v i) = inputs (h i)"
  by (simp add: set_CO_def)
lemma gtype_set_CO: "gtype (set_CO h a v i) = gtype (h i)"
  by (simp add: set_CO_def)

lemma backward_xor_frame:
  "backward_xor h g js = Some h' \<Longrightarrow> set js \<subseteq> {0 ..< length (inputs (h g))}
   \<Longrightarrow> i \<notin> set (inputs (h g)) \<Longrightarrow> CO (h' i) = CO (h i)"
proof (induction js arbitrary: h)
  case Nil
  then show ?case by simp
next
  case (Cons j js)
  from Cons.prems obtain v where
    rest: "backward_xor (set_CO h (inputs (h g) ! j) v) g js = Some h'"
    by (auto split: bind_splits simp: Let_def)
  from Cons.prems have "inputs (h g) ! j \<in> set (inputs (h g))" by simp
  with Cons.prems have ne: "i \<noteq> inputs (h g) ! j" by auto
  from Cons.IH [OF rest] Cons.prems have "CO (h' i) = CO (set_CO h (inputs (h g) ! j) v i)"
    by (simp add: inputs_set_CO)
  with ne show ?case by (simp add: CO_set_CO)
qed

lemma backward_step_frame:
  assumes "backward_step vals h g = Some h'" "i \<notin> set (inputs (h g))"
  shows "CO (h' i) =
           (if i = g \<and> (fanout (h g) = 0
                 \<or> gtype (h g) = Fanout \<and> \<not> list_ex (\<lambda>other_gate. g \<in> set (inputs (h other_gate))) vals)
            then Fin 0 else CO (h i))"
proof -
  let ?h = "if fanout (h g) = 0 then set_CO h g (Fin 0) else h"
  have s: "inputs (?h j) = inputs (h j)" "gtype (?h j) = gtype (h j)" for j
    by (simp_all add: set_CO_def)
  show ?thesis
  proof (cases "gtype (?h g) = Xor \<or> gtype (?h g) = Xnor")
    case True
    with assms have "backward_xor ?h g [0 ..< length (inputs (?h g))] = Some h'"
      by (auto simp: backward_step_def Let_def)
    then have "CO (h' i) = CO (?h i)"
      by (rule backward_xor_frame) (use assms s in auto)
    with True show ?thesis by (auto simp: CO_set_CO s)
  next
    case False
    with assms show ?thesis
      by (auto simp: backward_step_def Let_def CO_set_CO inputs_set_CO gtype_set_CO s
          split: bind_splits if_splits dest!: nth_input_mem)
  qed
qed



lemma only_CC_refl: "only_CC h h"
  by (simp add: only_CC_def)

lemma only_CC_set_CC0: "only_CC h h' \<Longrightarrow> only_CC h (set_CC0 h' a v)"
  unfolding only_CC_def set_CC0_def
proof (intro allI)
  fix i assume a: "\<forall>i. h' i = (h i)\<lparr>CC0 := CC0 (h' i), CC1 := CC1 (h' i)\<rparr>"
  then have "h' i = (h i)\<lparr>CC0 := CC0 (h' i), CC1 := CC1 (h' i)\<rparr>" by blast
  then obtain x y where "h' i = (h i)\<lparr>CC0 := x, CC1 := y\<rparr>" by blast
  then show "(h'(a := (h' a)\<lparr>CC0 := v\<rparr>)) i
      = (h i)\<lparr>CC0 := CC0 ((h'(a := (h' a)\<lparr>CC0 := v\<rparr>)) i), CC1 := CC1 ((h'(a := (h' a)\<lparr>CC0 := v\<rparr>)) i)\<rparr>"
    by (cases "i = a") simp_all
qed

lemma only_CC_set_CC1: "only_CC h h' \<Longrightarrow> only_CC h (set_CC1 h' a v)"
  unfolding only_CC_def set_CC1_def
proof (intro allI)
  fix i assume a: "\<forall>i. h' i = (h i)\<lparr>CC0 := CC0 (h' i), CC1 := CC1 (h' i)\<rparr>"
  then have "h' i = (h i)\<lparr>CC0 := CC0 (h' i), CC1 := CC1 (h' i)\<rparr>" by blast
  then obtain x y where "h' i = (h i)\<lparr>CC0 := x, CC1 := y\<rparr>" by blast
  then show "(h'(a := (h' a)\<lparr>CC1 := v\<rparr>)) i
      = (h i)\<lparr>CC0 := CC0 ((h'(a := (h' a)\<lparr>CC1 := v\<rparr>)) i), CC1 := CC1 ((h'(a := (h' a)\<lparr>CC1 := v\<rparr>)) i)\<rparr>"
    by (cases "i = a") simp_all
qed

lemma only_CC_fields:
  assumes "only_CC h h'"
  shows "gtype (h' i) = gtype (h i)" "inputs (h' i) = inputs (h i)" "fanout (h' i) = fanout (h i)"
    "CO (h' i) = CO (h i)"
proof -
  from assms have e: "h' i = (h i)\<lparr>CC0 := CC0 (h' i), CC1 := CC1 (h' i)\<rparr>" by (simp add: only_CC_def)
  show "gtype (h' i) = gtype (h i)" by (subst e) simp
  show "inputs (h' i) = inputs (h i)" by (subst e) simp
  show "fanout (h' i) = fanout (h i)" by (subst e) simp
  show "CO (h' i) = CO (h i)" by (subst e) simp
qed

lemma forward_step_only_CC:
  assumes "forward_step h g = Some h'"
  shows "only_CC h h'"
  using assms
  by (cases "gtype (h g)")
    (auto simp: forward_step_def Let_def split: bind_splits
      intro!: only_CC_set_CC0 only_CC_set_CC1 only_CC_refl)

lemma CC_set_CC:
  "CC0 (set_CC0 h a v i) = (if i = a then v else CC0 (h i))"
  "CC1 (set_CC0 h a v i) = CC1 (h i)"
  "CC0 (set_CC1 h a v i) = CC0 (h i)"
  "CC1 (set_CC1 h a v i) = (if i = a then v else CC1 (h i))"
  by (simp_all add: set_CC0_def set_CC1_def)

lemma forward_step_inpt:
  assumes "forward_step h g = Some h'" "gtype (h i) = Inpt"
  shows "CC0 (h' i) = CC0 (h i) \<and> CC1 (h' i) = CC1 (h i)"
proof (cases "i = g")
  case True
  with assms show ?thesis by (simp add: forward_step_def)
next
  case False
  with assms(1) show ?thesis
    by (cases "gtype (h g)")
      (auto simp: forward_step_def Let_def CC_set_CC split: bind_splits)
qed





lemma scoap_init_char:
  "scoap_init h gs =
     (\<lambda>i. if i \<in> set gs \<and> gtype (h i) = Inpt then (h i)\<lparr>CC0 := Fin 1, CC1 := Fin 1\<rparr> else h i)"
proof (induction gs arbitrary: h)
  case Nil
  then show ?case by simp
next
  case (Cons g gs)
  show ?case
    by (auto simp: Cons.IH set_CC0_def set_CC1_def fun_eq_iff)
qed

lemma scoap_init_cc_bounded: "cc_bounded h \<Longrightarrow> cc_bounded (scoap_init h gs)"
  by (simp add: scoap_init_char cc_bounded_def)

lemma forward_pass_cc_bounded:
  "forward_pass h gs = Some h' \<Longrightarrow> cc_bounded h \<Longrightarrow> cc_bounded h'"
  by (induction gs arbitrary: h) (auto split: option.splits dest: forward_step_cc_bounded)

lemma only_CC_trans: "only_CC h1 h2 \<Longrightarrow> only_CC h2 h3 \<Longrightarrow> only_CC h1 h3"
  unfolding only_CC_def
proof (intro allI)
  fix i
  assume a: "\<forall>i. h2 i = (h1 i)\<lparr>CC0 := CC0 (h2 i), CC1 := CC1 (h2 i)\<rparr>"
    and b: "\<forall>i. h3 i = (h2 i)\<lparr>CC0 := CC0 (h3 i), CC1 := CC1 (h3 i)\<rparr>"
  from a obtain x y where x: "h2 i = (h1 i)\<lparr>CC0 := x, CC1 := y\<rparr>" by blast
  from b obtain u v where u: "h3 i = (h2 i)\<lparr>CC0 := u, CC1 := v\<rparr>" by blast
  show "h3 i = (h1 i)\<lparr>CC0 := CC0 (h3 i), CC1 := CC1 (h3 i)\<rparr>"
    by (simp add: u x)
qed

lemma only_CO_trans: "only_CO h1 h2 \<Longrightarrow> only_CO h2 h3 \<Longrightarrow> only_CO h1 h3"
  unfolding only_CO_def
proof (intro allI)
  fix i
  assume a: "\<forall>i. h2 i = (h1 i)\<lparr>CO := CO (h2 i)\<rparr>"
    and b: "\<forall>i. h3 i = (h2 i)\<lparr>CO := CO (h3 i)\<rparr>"
  from a obtain x where x: "h2 i = (h1 i)\<lparr>CO := x\<rparr>" by blast
  from b obtain u where u: "h3 i = (h2 i)\<lparr>CO := u\<rparr>" by blast
  show "h3 i = (h1 i)\<lparr>CO := CO (h3 i)\<rparr>"
    by (simp add: u x)
qed

lemma forward_pass_only_CC: "forward_pass h gs = Some h' \<Longrightarrow> only_CC h h'"
proof (induction gs arbitrary: h)
  case Nil
  then show ?case by (simp add: only_CC_refl)
next
  case (Cons g gs)
  then show ?case
    by (auto split: option.splits intro: only_CC_trans [OF forward_step_only_CC])
qed

lemma forward_pass_inpt:
  "forward_pass h gs = Some h' \<Longrightarrow> gtype (h i) = Inpt
   \<Longrightarrow> CC0 (h' i) = CC0 (h i) \<and> CC1 (h' i) = CC1 (h i)"
proof (induction gs arbitrary: h)
  case Nil
  then show ?case by simp
next
  case (Cons g gs)
  from Cons.prems obtain h1 where s: "forward_step h g = Some h1" and r: "forward_pass h1 gs = Some h'"
    by (auto split: option.splits)
  have "gtype (h1 i) = Inpt"
    using only_CC_fields(1) [OF forward_step_only_CC [OF s]] Cons.prems(2) by simp
  from Cons.IH [OF r this] forward_step_inpt [OF s Cons.prems(2)] show ?case by simp
qed

lemma backward_pass_only_CO: "backward_pass vals h gs = Some h' \<Longrightarrow> only_CO h h'"
proof (induction gs arbitrary: h)
  case Nil
  then show ?case by (simp add: only_CO_refl)
next
  case (Cons g gs)
  then show ?case
    by (auto split: option.splits intro: only_CO_trans [OF backward_step_only_CO])
qed

lemma cc_bounded_only_CO: "only_CO h h' \<Longrightarrow> cc_bounded h \<Longrightarrow> cc_bounded h'"
  by (simp add: cc_bounded_def only_CO_fields)

lemma backward_pass_co_bounded:
  "backward_pass vals h gs = Some h' \<Longrightarrow> co_bounded h \<Longrightarrow> cc_bounded h \<Longrightarrow> co_bounded h'"
proof (induction gs arbitrary: h)
  case Nil
  then show ?case by simp
next
  case (Cons g gs)
  from Cons.prems obtain h1 where s: "backward_step vals h g = Some h1"
    and r: "backward_pass vals h1 gs = Some h'"
    by (auto split: option.splits)
  show ?case
    using Cons.IH [OF r backward_step_co_bounded [OF s Cons.prems(2,3)]
        cc_bounded_only_CO [OF backward_step_only_CO [OF s] Cons.prems(3)]] .
qed

lemma backward_pass_output_CO:
  assumes "backward_pass vals h gs = Some h'"
    and "set gs \<subseteq> set vals"
    and "\<not> list_ex (\<lambda>other_gate. i \<in> set (inputs (h other_gate))) vals"
    and "fanout (h i) = 0 \<or> gtype (h i) = Fanout"
    and "i \<in> set gs \<or> CO (h i) = Fin 0"
  shows "CO (h' i) = Fin 0"
  using assms
proof (induction gs arbitrary: h)
  case Nil
  then show ?case by simp
next
  case (Cons g gs)
  from Cons.prems(1) obtain h1 where s: "backward_step vals h g = Some h1"
    and r: "backward_pass vals h1 gs = Some h'"
    by (auto split: option.splits)
  note f = only_CO_fields [OF backward_step_only_CO [OF s]]
  from Cons.prems(2,3) have notin: "i \<notin> set (inputs (h g))"
    by (auto simp: list_ex_iff)
  have co: "i \<in> set gs \<or> CO (h1 i) = Fin 0"
    using Cons.prems(3,4,5) backward_step_frame [OF s notin] by auto
  show ?case
    by (rule Cons.IH [OF r]) (use Cons.prems co in \<open>simp_all add: f\<close>)
qed

text \<open>
  Claim C7: on a netlist as the parser leaves it (all measures infinite) in which every
  gate that no gate consumes declares \<open>fanout = 0\<close> or is a fanout branch, whenever
  \<open>compute_scoap\<close> completes, every gate of the circuit has \<open>CC0 \<ge> 1\<close>,
  \<open>CC1 \<ge> 1\<close> and \<open>CO \<ge> 0\<close>, every \<open>inpt\<close> gate has \<open>CC0 = CC1 = 1\<close>, and
  every gate that no gate consumes has \<open>CO = 0\<close>.
\<close>

theorem C7_scoap_bounds:
  assumes fresh: "fresh_measures (heap c)"
    and decl: "outputs_declared c"
    and run: "compute_scoap c = Some c'"
  shows "list_all (\<lambda>g. cle (Fin 1) (CC0 (heap c' g)) \<and> cle (Fin 1) (CC1 (heap c' g))
                      \<and> cle (Fin 0) (CO (heap c' g))
                      \<and> (gtype (heap c' g) = Inpt \<longrightarrow> CC0 (heap c' g) = Fin 1 \<and> CC1 (heap c' g) = Fin 1)
                      \<and> (\<not> consumed c' g \<longrightarrow> CO (heap c' g) = Fin 0))
           (gate_values c')"
proof -
  let ?vals = "gate_values c"
  let ?h0 = "scoap_init (heap c) ?vals"
  from run obtain h1 h2 where
    fw: "forward_pass ?h0 ?vals = Some h1" and
    bw: "backward_pass ?vals h1 (rev ?vals) = Some h2" and
    c': "c' = c\<lparr>heap := h2\<rparr>"
    by (auto simp: compute_scoap_def Let_def split: bind_splits)
  have vals': "gate_values c' = ?vals" by (simp add: c' gate_values_def)
  have cc0: "cc_bounded (heap c)" and co0: "co_bounded (heap c)"
    using fresh by (simp_all add: cc_bounded_def co_bounded_def fresh_measures_def)
  have cc1: "cc_bounded h1"
    by (rule forward_pass_cc_bounded [OF fw scoap_init_cc_bounded [OF cc0]])
  note f1 = only_CC_fields [OF forward_pass_only_CC [OF fw]]
  note f2 = only_CO_fields [OF backward_pass_only_CO [OF bw]]
  have st0: "gtype (?h0 i) = gtype (heap c i)" "inputs (?h0 i) = inputs (heap c i)"
    "fanout (?h0 i) = fanout (heap c i)" "CO (?h0 i) = CO (heap c i)" for i
    by (simp_all add: scoap_init_char)
  have co1: "co_bounded h1"
    using co0 by (simp add: co_bounded_def f1 st0)
  have cc2: "cc_bounded h2"
    by (rule cc_bounded_only_CO [OF backward_pass_only_CO [OF bw] cc1])
  have co2: "co_bounded h2"
    by (rule backward_pass_co_bounded [OF bw co1 cc1])
  have inpt: "CC0 (h2 g) = Fin 1 \<and> CC1 (h2 g) = Fin 1"
    if "g \<in> set ?vals" "gtype (h2 g) = Inpt" for g
  proof -
    from that have t: "gtype (?h0 g) = Inpt" by (simp add: f2 f1)
    then have "gtype (heap c g) = Inpt" by (simp add: st0)
    with that have "CC0 (?h0 g) = Fin 1 \<and> CC1 (?h0 g) = Fin 1"
      by (simp add: scoap_init_char)
    with forward_pass_inpt [OF fw t] show ?thesis by (simp add: f2)
  qed
  have po: "CO (h2 g) = Fin 0" if "g \<in> set ?vals" "\<not> consumed c' g" for g
  proof (rule backward_pass_output_CO [OF bw])
    show "set (rev ?vals) \<subseteq> set ?vals" by simp
    from that(2) show "\<not> list_ex (\<lambda>other_gate. g \<in> set (inputs (h1 other_gate))) ?vals"
      by (simp add: consumed_def c' vals' [unfolded c'] f2)
    from that(2) have "\<not> consumed c g"
      by (simp add: consumed_def c' vals' [unfolded c'] f2 f1 st0)
    with decl that(1) show "fanout (h1 g) = 0 \<or> gtype (h1 g) = Fanout"
      by (auto simp: outputs_declared_def list_all_iff f1 st0)
    from that(1) show "g \<in> set (rev ?vals) \<or> CO (h1 g) = Fin 0" by simp
  qed
  show ?thesis
    unfolding vals' list_all_iff
    using cc2 co2 inpt po
    by (auto simp: c' cc_bounded_def co_bounded_def)
qed


theorem C7_scoap_bounds_witness:
  "fresh_measures (heap or2_circuit) \<and> outputs_declared or2_circuit
   \<and> (\<exists>c'. compute_scoap or2_circuit = Some c'
        \<and> list_all (\<lambda>g. cle (Fin 1) (CC0 (heap c' g)) \<and> cle (Fin 1) (CC1 (heap c' g))
                      \<and> cle (Fin 0) (CO (heap c' g))
                      \<and> (gtype (heap c' g) = Inpt \<longrightarrow> CC0 (heap c' g) = Fin 1 \<and> CC1 (heap c' g) = Fin 1)
                      \<and> (\<not> consumed c' g \<longrightarrow> CO (heap c' g) = Fin 0))
             (gate_values c'))"
proof -
  have f: "fresh_measures (heap or2_circuit)"
    by (simp add: fresh_measures_def or2_circuit_def empty_store_def Gate_init_def)
  have d: "outputs_declared or2_circuit"
    by (simp add: outputs_declared_def consumed_def or2_circuit_def gate_values_def
        empty_store_def Gate_init_def)
  obtain c' where r: "compute_scoap or2_circuit = Some c'"
    by (simp add: or2_circuit_def compute_scoap_def gate_values_def Gate_init_def
        empty_store_def forward_step_def backward_step_def set_CC0_def set_CC1_def set_CO_def
        nth_input_def sum_cost_def cmin_def clt_def)
  from C7_scoap_bounds [OF f d r] f d r show ?thesis by blast
qed

subsection \<open>Topological declaration order\<close>

text \<open>The declaration order: every input of a gate is declared before the gate.\<close>

lemma topo_from_append:
  "topo_from h pre (xs @ ys) \<longleftrightarrow> topo_from h pre xs \<and> topo_from h (pre @ xs) ys"
  by (induction xs arbitrary: pre) auto

lemma topo_from_distinct:
  "topo_from h pre gs \<Longrightarrow> distinct gs \<and> set gs \<inter> set pre = {}"
  by (induction gs arbitrary: pre) (fastforce)+

lemma topo_from_inputs:
  "topo_from h pre (xs @ g # ys) \<Longrightarrow> set (inputs (h g)) \<subseteq> set pre \<union> set xs"
  by (auto simp: topo_from_append)

lemma topo_from_cong:
  "(\<And>x. inputs (h' x) = inputs (h x)) \<Longrightarrow> topo_from h' pre gs = topo_from h pre gs"
  by (induction gs arbitrary: pre) auto

lemma topo_split:
  assumes "topological h vals" "g \<in> set vals"
  obtains xs ys where "vals = xs @ g # ys" "set (inputs (h g)) \<subseteq> set xs"
    "g \<notin> set xs" "g \<notin> set ys"
proof -
  from assms(2) obtain xs ys where v: "vals = xs @ g # ys" by (meson split_list)
  from assms(1) have t: "topo_from h [] (xs @ g # ys)" by (simp add: topological_def v)
  from topo_from_inputs [OF t] have "set (inputs (h g)) \<subseteq> set xs" by simp
  moreover from topo_from_distinct [OF t] have "g \<notin> set xs" "g \<notin> set ys" by auto
  ultimately show ?thesis using v that by blast
qed

lemma topo_inputs_in_vals:
  "topological h vals \<Longrightarrow> g \<in> set vals \<Longrightarrow> set (inputs (h g)) \<subseteq> set vals"
  by (erule (1) topo_split) auto

lemma topo_not_self:
  "topological h vals \<Longrightarrow> g \<in> set vals \<Longrightarrow> g \<notin> set (inputs (h g))"
  by (erule (1) topo_split) auto

subsection \<open>SCOAP: refinement of the observability\<close>


lemmas scoap_eval = compute_scoap_def gate_values_def Gate_init_def
        empty_store_def forward_step_def backward_step_def set_CC0_def set_CC1_def set_CO_def
        nth_input_def sum_cost_def cmin_def clt_def other_inputs_def Let_def


text \<open>
  Claim C6, as stated, on the netlist \<open>reconvergent_circuit\<close>: the input \<open>a\<close> is
  observable through \<open>g1\<close> (contribution \<open>CO(g1) + CC1(m) + 1 = 4\<close>) and through
  \<open>g2\<close> (contribution \<open>CO(g2) + CC1(b) + 1 = 2\<close>). The backward pass visits \<open>g2\<close>
  first and writes 2, then \<open>g1\<close> and overwrites it with 4: the final \<open>CO\<close> of \<open>a\<close>
  is the later-written larger value, not the minimum.
\<close>

theorem C6_direct_reconvergence_overwrites:
  "\<exists>c'. compute_scoap reconvergent_circuit = Some c'
      \<and> CO (heap c' 0) = Fin 4
      \<and> cadd (cadd (CO (heap c' 5)) (CC1 (heap c' 4))) (Fin 1) = Fin 4
      \<and> cadd (cadd (CO (heap c' 6)) (CC1 (heap c' 1))) (Fin 1) = Fin 2"
  by (simp add: reconvergent_circuit_def scoap_eval)

lemma cle_refl: "cle a a"
  by (cases a) auto

lemma clt_imp_cle: "clt a b \<Longrightarrow> cle a b"
  by (cases a; cases b) (auto simp: clt_def)

lemma cle_trans: "cle a b \<Longrightarrow> cle b c \<Longrightarrow> cle a c"
  by (cases a; cases b; cases c) auto

lemma backward_step_lowers:
  assumes s: "backward_step vals h g = Some h'"
    and co: "co_bounded h"
    and fo: "s \<in> set (inputs (h g)) \<longrightarrow> gtype (h g) = Fanout"
  shows "cle (CO (h' s)) (CO (h s))"
proof (cases "s \<in> set (inputs (h g))")
  case False
  from backward_step_frame [OF s False] co_bounded_CO [OF co, of s] show ?thesis
    by (auto simp: cle_refl)
next
  case True
  with fo have t: "gtype (h g) = Fanout" by simp
  with s co_bounded_CO [OF co, of s] show ?thesis
    by (auto simp: backward_step_def Let_def CO_set_CO gtype_set_CO inputs_set_CO cle_refl
        nth_input_def clt_imp_cle
        split: bind_splits if_splits)
qed

lemma backward_pass_lowers:
  assumes "backward_pass vals h gs = Some h'"
    and "co_bounded h" and "cc_bounded h"
    and "set gs \<subseteq> set vals"
    and "list_all (\<lambda>other_gate. s \<in> set (inputs (h other_gate)) \<longrightarrow> gtype (h other_gate) = Fanout) vals"
  shows "cle (CO (h' s)) (CO (h s))"
  using assms
proof (induction gs arbitrary: h)
  case Nil
  then show ?case by (simp add: cle_refl)
next
  case (Cons g gs)
  from Cons.prems(1) obtain h1 where st: "backward_step vals h g = Some h1"
    and r: "backward_pass vals h1 gs = Some h'"
    by (auto split: option.splits)
  note f = only_CO_fields [OF backward_step_only_CO [OF st]]
  from Cons.prems(4,5) have "s \<in> set (inputs (h g)) \<longrightarrow> gtype (h g) = Fanout"
    by (auto simp: list_all_iff)
  from backward_step_lowers [OF st Cons.prems(2) this]
  have a: "cle (CO (h1 s)) (CO (h s))" .
  have "cle (CO (h' s)) (CO (h1 s))"
    by (rule Cons.IH [OF r backward_step_co_bounded [OF st Cons.prems(2,3)]
          cc_bounded_only_CO [OF backward_step_only_CO [OF st] Cons.prems(3)]])
      (use Cons.prems in \<open>simp_all add: f\<close>)
  then show ?case using a by (rule cle_trans)
qed

lemma backward_pass_append:
  "backward_pass vals h (xs @ ys) =
     (case backward_pass vals h xs of None \<Rightarrow> None | Some h1 \<Rightarrow> backward_pass vals h1 ys)"
  by (induction xs arbitrary: h) (auto split: option.splits)

lemma backward_pass_frame:
  "backward_pass vals h gs = Some h' \<Longrightarrow> i \<notin> set gs
   \<Longrightarrow> list_all (\<lambda>g. i \<notin> set (inputs (h g))) gs \<Longrightarrow> CO (h' i) = CO (h i)"
proof (induction gs arbitrary: h)
  case Nil
  then show ?case by simp
next
  case (Cons g gs)
  from Cons.prems(1) obtain h1 where st: "backward_step vals h g = Some h1"
    and r: "backward_pass vals h1 gs = Some h'"
    by (auto split: option.splits)
  note f = only_CO_fields [OF backward_step_only_CO [OF st]]
  from Cons.prems have "i \<notin> set (inputs (h g))" "i \<noteq> g" by auto
  with backward_step_frame [OF st, of i] have a: "CO (h1 i) = CO (h i)" by simp
  from Cons.prems have "CO (h' i) = CO (h1 i)"
    by (intro Cons.IH [OF r]) (simp_all add: f)
  with a show ?case by simp
qed

lemma not_clt_cle: "\<not> clt a b \<Longrightarrow> cle b a"
  by (simp add: clt_def)

lemma backward_step_fanout:
  assumes st: "backward_step vals h b = Some h1"
    and t: "gtype (h b) = Fanout"
    and c: "list_ex (\<lambda>other_gate. b \<in> set (inputs (h other_gate))) vals"
    and a: "nth_input h b 0 = Some a" and ne: "a \<noteq> b"
  shows "CO (h1 b) = (if fanout (h b) = 0 then Fin 0 else CO (h b))"
    and "CO (h1 a) = (if clt (CO (h1 b)) (CO (h a)) then CO (h1 b) else CO (h a))"
    and "i \<noteq> a \<Longrightarrow> i \<noteq> b \<Longrightarrow> CO (h1 i) = CO (h i)"
  using assms
  by (auto simp: backward_step_def Let_def CO_set_CO gtype_set_CO inputs_set_CO nth_input_def
      split: if_splits)

lemma backward_step_branch:
  assumes st: "backward_step vals h b = Some h1"
    and b: "b \<in> set (stem_branches h vals s)" and ne: "s \<noteq> b"
  shows "cle (CO (h1 s)) (CO (h1 b))"
proof -
  from b have t: "gtype (h b) = Fanout" and a: "nth_input h b 0 = Some s"
    and c: "list_ex (\<lambda>other_gate. b \<in> set (inputs (h other_gate))) vals"
    by (simp_all add: stem_branches_def)
  from backward_step_fanout(2) [OF st t c a ne] show ?thesis
    by (auto simp: cle_refl not_clt_cle)
qed

lemma backward_step_stem:
  assumes st: "backward_step vals h g = Some h1"
    and g: "g \<in> set vals" and noself: "g \<notin> set (inputs (h g))"
    and fo: "s \<in> set (inputs (h g)) \<longrightarrow> gtype (h g) = Fanout"
  shows "CO (h1 s) = CO (h s)
         \<or> (g = s \<and> declared_output h vals s \<and> CO (h1 s) = Fin 0)
         \<or> (g \<in> set (stem_branches h vals s) \<and> CO (h1 s) = CO (h1 g))"
proof (cases "s \<in> set (inputs (h g))")
  case False
  from backward_step_frame [OF st False] g show ?thesis
    by (auto simp: declared_output_def split: if_splits)
next
  case True
  with fo noself have t: "gtype (h g) = Fanout" and ne: "s \<noteq> g" by auto
  show ?thesis
  proof (cases "list_ex (\<lambda>other_gate. g \<in> set (inputs (h other_gate))) vals")
    case False
    with st t ne have "CO (h1 s) = CO (h s)"
      by (auto simp: backward_step_def Let_def CO_set_CO gtype_set_CO inputs_set_CO
          split: if_splits)
    then show ?thesis by simp
  next
    case c: True
    from True obtain a where a: "nth_input h g 0 = Some a"
      by (cases "inputs (h g)") (auto simp: nth_input_def)
    with noself have na: "a \<noteq> g" by (auto dest: nth_input_mem)
    note f = backward_step_fanout [OF st t c a na]
    show ?thesis
    proof (cases "a = s")
      case True
      with a t c g have "g \<in> set (stem_branches h vals s)" by (simp add: stem_branches_def)
      with f(2) True show ?thesis by auto
    next
      case False
      with f(3) [of s] ne show ?thesis by simp
    qed
  qed
qed


lemma stem_branches_cong:
  "(\<And>x. gtype (h' x) = gtype (h x)) \<Longrightarrow> (\<And>x. inputs (h' x) = inputs (h x))
   \<Longrightarrow> stem_branches h' vals s = stem_branches h vals s"
  by (simp add: stem_branches_def nth_input_def)

lemma declared_output_cong:
  "(\<And>x. gtype (h' x) = gtype (h x)) \<Longrightarrow> (\<And>x. inputs (h' x) = inputs (h x))
   \<Longrightarrow> (\<And>x. fanout (h' x) = fanout (h x))
   \<Longrightarrow> declared_output h' vals s = declared_output h vals s"
  by (simp add: declared_output_def)

lemma topo_from_closed:
  assumes "topo_from h [] xs" "x \<in> set xs"
  shows "set (inputs (h x)) \<subseteq> set xs"
  using topo_inputs_in_vals [of h xs x] assms by (simp add: topological_def)

lemma backward_pass_stem:
  assumes "backward_pass vals h gs = Some h'"
    and "topo_from h [] (rev gs)" and "set gs \<subseteq> set vals"
    and "list_all (\<lambda>other_gate. s \<in> set (inputs (h other_gate)) \<longrightarrow> gtype (h other_gate) = Fanout) vals"
  shows "CO (h' s) = CO (h s)
         \<or> (declared_output h vals s \<and> CO (h' s) = Fin 0)
         \<or> list_ex (\<lambda>b. CO (h' s) = CO (h' b)) (stem_branches h vals s)"
  using assms
proof (induction gs arbitrary: h)
  case Nil
  then show ?case by simp
next
  case (Cons g gs)
  from Cons.prems(1) obtain h1 where st: "backward_step vals h g = Some h1"
    and r: "backward_pass vals h1 gs = Some h'"
    by (auto split: option.splits)
  note f = only_CO_fields [OF backward_step_only_CO [OF st]]
  have sb: "stem_branches h1 vals s = stem_branches h vals s"
    by (rule stem_branches_cong) (simp_all add: f)
  have dc: "declared_output h1 vals s = declared_output h vals s"
    by (rule declared_output_cong) (simp_all add: f)
  from Cons.prems(2) have t: "topo_from h [] (rev gs)" and gi: "set (inputs (h g)) \<subseteq> set gs"
    and gn: "g \<notin> set gs"
    by (simp_all add: topo_from_append)
  from gi gn have noself: "g \<notin> set (inputs (h g))" by auto
  from Cons.prems(3,4) have fo: "s \<in> set (inputs (h g)) \<longrightarrow> gtype (h g) = Fanout"
    by (auto simp: list_all_iff)
  from Cons.prems(3) have gv: "g \<in> set vals" by simp
  have t1: "topo_from h1 [] (rev gs)"
    using t topo_from_cong [of h1 h "[]" "rev gs"] by (simp add: f)
  have "CO (h' s) = CO (h1 s)
         \<or> (declared_output h1 vals s \<and> CO (h' s) = Fin 0)
         \<or> list_ex (\<lambda>b. CO (h' s) = CO (h' b)) (stem_branches h1 vals s)"
    by (rule Cons.IH [OF r t1]) (use Cons.prems in \<open>simp_all add: f\<close>)
  then consider (same) "CO (h' s) = CO (h1 s)"
    | (later) "(declared_output h vals s \<and> CO (h' s) = Fin 0)
         \<or> list_ex (\<lambda>b. CO (h' s) = CO (h' b)) (stem_branches h vals s)"
    unfolding sb dc by blast
  then show ?case
  proof cases
    case later
    then show ?thesis by blast
  next
    case same
    from backward_step_stem [OF st gv noself fo]
    consider (keep) "CO (h1 s) = CO (h s)"
      | (zero) "declared_output h vals s" "CO (h1 s) = Fin 0"
      | (branch) "g \<in> set (stem_branches h vals s)" "CO (h1 s) = CO (h1 g)"
      by blast
    then show ?thesis
    proof cases
      case keep
      with same show ?thesis by simp
    next
      case zero
      with same show ?thesis by simp
    next
      case branch
      have "list_all (\<lambda>x. g \<notin> set (inputs (h1 x))) gs"
        using topo_from_closed [OF t] gn by (auto simp: list_all_iff f)
      from backward_pass_frame [OF r gn this] branch(2) same have "CO (h' s) = CO (h' g)"
        by simp
      with branch(1) have "list_ex (\<lambda>b. CO (h' s) = CO (h' b)) (stem_branches h vals s)"
        by (auto simp: list_ex_iff)
      then show ?thesis by blast
    qed
  qed
qed

lemma backward_pass_branch_bound:
  assumes run: "backward_pass vals h (rev vals) = Some h'"
    and topo: "topological h vals"
    and co: "co_bounded h" and cc: "cc_bounded h"
    and fo: "list_all (\<lambda>other_gate. s \<in> set (inputs (h other_gate)) \<longrightarrow> gtype (h other_gate) = Fanout) vals"
    and b: "b \<in> set (stem_branches h vals s)"
  shows "cle (CO (h' s)) (CO (h' b))"
proof -
  from b have bv: "b \<in> set vals" and a: "nth_input h b 0 = Some s"
    by (simp_all add: stem_branches_def)
  from topo bv obtain xs ys where v: "vals = xs @ b # ys" and bi: "set (inputs (h b)) \<subseteq> set xs"
    and bx: "b \<notin> set xs"
    by (rule topo_split)
  from nth_input_mem [OF a] bi bx have ne: "s \<noteq> b" by auto
  from run obtain h1 h2 where
    p1: "backward_pass vals h (rev ys) = Some h1" and
    st: "backward_step vals h1 b = Some h2" and
    p2: "backward_pass vals h2 (rev xs) = Some h'"
    by (auto simp: v backward_pass_append split: option.splits)
  have p12: "backward_pass vals h (rev ys @ [b]) = Some h2"
    by (simp add: backward_pass_append p1 st)
  note f1 = only_CO_fields [OF backward_pass_only_CO [OF p1]]
  note f2 = only_CO_fields [OF backward_pass_only_CO [OF p12]]
  have "stem_branches h1 vals s = stem_branches h vals s"
    by (rule stem_branches_cong) (simp_all add: f1)
  with b have "b \<in> set (stem_branches h1 vals s)" by simp
  from backward_step_branch [OF st this ne] have low: "cle (CO (h2 s)) (CO (h2 b))" .
  from topo have tx: "topo_from h [] xs" by (simp add: topological_def v topo_from_append)
  have "list_all (\<lambda>x. b \<notin> set (inputs (h2 x))) (rev xs)"
    using topo_from_closed [OF tx] bx by (auto simp: list_all_iff f2)
  with backward_pass_frame [OF p2, of b] bx have keep: "CO (h' b) = CO (h2 b)" by simp
  have "cle (CO (h' s)) (CO (h2 s))"
  proof (rule backward_pass_lowers [OF p2])
    show "co_bounded h2" by (rule backward_pass_co_bounded [OF p12 co cc])
    show "cc_bounded h2" by (rule cc_bounded_only_CO [OF backward_pass_only_CO [OF p12] cc])
    show "set (rev xs) \<subseteq> set vals" by (auto simp: v)
    show "list_all (\<lambda>other_gate. s \<in> set (inputs (h2 other_gate)) \<longrightarrow> gtype (h2 other_gate) = Fanout) vals"
      using fo by (simp add: f2)
  qed
  with low keep show ?thesis by (auto intro: cle_trans)
qed

lemma backward_pass_declared_output:
  assumes run: "backward_pass vals h (rev vals) = Some h'"
    and topo: "topological h vals"
    and d: "declared_output h vals s"
  shows "CO (h' s) = Fin 0"
proof -
  from d have sv: "s \<in> set vals" by (simp add: declared_output_def)
  from topo sv obtain xs ys where v: "vals = xs @ s # ys" and si: "set (inputs (h s)) \<subseteq> set xs"
    and sx: "s \<notin> set xs"
    by (rule topo_split)
  from run obtain h1 h2 where
    p1: "backward_pass vals h (rev ys) = Some h1" and
    st: "backward_step vals h1 s = Some h2" and
    p2: "backward_pass vals h2 (rev xs) = Some h'"
    by (auto simp: v backward_pass_append split: option.splits)
  have p12: "backward_pass vals h (rev ys @ [s]) = Some h2"
    by (simp add: backward_pass_append p1 st)
  note f1 = only_CO_fields [OF backward_pass_only_CO [OF p1]]
  note f2 = only_CO_fields [OF backward_pass_only_CO [OF p12]]
  from si sx have "s \<notin> set (inputs (h1 s))" by (auto simp: f1)
  from backward_step_frame [OF st this] d have z: "CO (h2 s) = Fin 0"
    by (simp add: declared_output_def f1)
  from topo have tx: "topo_from h [] xs" by (simp add: topological_def v topo_from_append)
  have "list_all (\<lambda>x. s \<notin> set (inputs (h2 x))) (rev xs)"
    using topo_from_closed [OF tx] sx by (auto simp: list_all_iff f2)
  with backward_pass_frame [OF p2, of s] sx z show ?thesis by simp
qed


lemma cle_antisym: "cle a b \<Longrightarrow> cle b a \<Longrightarrow> a = b"
  by (cases a; cases b) auto

lemma foldl_cmin_mem: "foldl cmin x xs \<in> set (x # xs)"
  by (induction xs arbitrary: x) (auto simp: cmin_def)

lemma foldl_cmin_lower: "y \<in> set (x # xs) \<Longrightarrow> cle (foldl cmin x xs) y"
proof (induction xs arbitrary: x y)
  case Nil
  then show ?case by (simp add: cle_refl)
next
  case (Cons a xs)
  have c: "cle (cmin x a) x" "cle (cmin x a) a"
    by (auto simp: cmin_def cle_refl not_clt_cle clt_imp_cle)
  from Cons.prems consider "y = x" | "y = a" | "y \<in> set xs" by auto
  then show ?case
  proof cases
    case 1
    from Cons.IH [of "cmin x a" "cmin x a"] c(1) show ?thesis
      unfolding 1 by (auto intro: cle_trans)
  next
    case 2
    from Cons.IH [of "cmin x a" "cmin x a"] c(2) show ?thesis
      unfolding 2 by (auto intro: cle_trans)
  next
    case 3
    with Cons.IH [of y "cmin x a"] show ?thesis by simp
  qed
qed

lemma min_cost_char:
  assumes "m \<in> set xs" "list_all (cle m) xs"
  shows "min_cost xs = Some m"
proof (cases xs)
  case Nil
  with assms show ?thesis by simp
next
  case (Cons x ys)
  from foldl_cmin_mem [of x ys] assms(2) have "cle m (foldl cmin x ys)"
    by (auto simp: Cons list_all_iff)
  moreover from foldl_cmin_lower [of m x ys] assms(1) have "cle (foldl cmin x ys) m"
    by (simp add: Cons)
  ultimately show ?thesis by (simp add: Cons cle_antisym)
qed

text \<open>
  Claim C6, amended: take a netlist in topological declaration order, a store with
  \<open>CC0, CC1 \<ge> 1\<close> and \<open>CO \<ge> 0\<close>, and a gate \<open>s\<close> all of whose consumers are fanout
  branches. Then, when the backward pass completes, (1) between any two moments of the
  pass the \<open>CO\<close> of \<open>s\<close> has not grown; (2) the final \<open>CO\<close> of \<open>s\<close> is at most the final
  \<open>CO\<close> of each of its branches that some gate consumes; (3) if \<open>s\<close> declares
  \<open>fanout = 0\<close> (or is a fanout branch that nothing consumes) its final \<open>CO\<close> is 0, and
  otherwise it is the \<open>CO\<close> it had before the pass or the final \<open>CO\<close> of one of those
  branches: the minimum of the value before the pass and the branches' final values.
\<close>

theorem C6_stem_CO_is_minimum_of_branches:
  assumes "backward_pass vals h (rev vals) = Some h'"
    and "topological h vals"
    and "co_bounded h" and "cc_bounded h"
    and "list_all (\<lambda>other_gate. s \<in> set (inputs (h other_gate)) \<longrightarrow> gtype (h other_gate) = Fanout) vals"
  shows "(\<forall>xs ys zs h1 h2.
            rev vals = xs @ ys @ zs \<and> backward_pass vals h xs = Some h1
            \<and> backward_pass vals h1 ys = Some h2
            \<longrightarrow> cle (CO (h2 s)) (CO (h1 s)))
         \<and> list_all (\<lambda>b. cle (CO (h' s)) (CO (h' b))) (stem_branches h vals s)
         \<and> (if declared_output h vals s then CO (h' s) = Fin 0
            else (CO (h' s) = CO (h s)
                    \<or> list_ex (\<lambda>b. CO (h' s) = CO (h' b)) (stem_branches h vals s))
                 \<and> min_cost (CO (h s) # map (\<lambda>b. CO (h' b)) (stem_branches h vals s))
                     = Some (CO (h' s)))"
proof -
  note run = assms(1) and topo = assms(2) and co = assms(3) and cc = assms(4) and fo = assms(5)
  have mono: "cle (CO (h2 s)) (CO (h1 s))"
    if sp: "rev vals = xs @ ys @ zs" and p1: "backward_pass vals h xs = Some h1"
      and p2: "backward_pass vals h1 ys = Some h2" for xs ys zs h1 h2
  proof (rule backward_pass_lowers [OF p2])
    note f = only_CO_fields [OF backward_pass_only_CO [OF p1]]
    show "co_bounded h1" by (rule backward_pass_co_bounded [OF p1 co cc])
    show "cc_bounded h1" by (rule cc_bounded_only_CO [OF backward_pass_only_CO [OF p1] cc])
    have "set ys \<subseteq> set (rev vals)" unfolding sp by auto
    then show "set ys \<subseteq> set vals" by simp
    show "list_all (\<lambda>other_gate. s \<in> set (inputs (h1 other_gate)) \<longrightarrow> gtype (h1 other_gate) = Fanout) vals"
      using fo by (simp add: f)
  qed
  have low: "list_all (\<lambda>b. cle (CO (h' s)) (CO (h' b))) (stem_branches h vals s)"
    using backward_pass_branch_bound [OF run topo co cc fo] by (simp add: list_all_iff)
  have whole: "cle (CO (h' s)) (CO (h s))"
    using mono [of "[]" "rev vals" "[]" h h'] run by simp
  have fin: "(if declared_output h vals s then CO (h' s) = Fin 0
              else (CO (h' s) = CO (h s)
                      \<or> list_ex (\<lambda>b. CO (h' s) = CO (h' b)) (stem_branches h vals s))
                   \<and> min_cost (CO (h s) # map (\<lambda>b. CO (h' b)) (stem_branches h vals s))
                       = Some (CO (h' s)))"
  proof (cases "declared_output h vals s")
    case True
    with backward_pass_declared_output [OF run topo] show ?thesis by simp
  next
    case False
    from topo have "topo_from h [] (rev (rev vals))" by (simp add: topological_def)
    from backward_pass_stem [OF run this _ fo] False
    have att: "CO (h' s) = CO (h s)
               \<or> list_ex (\<lambda>b. CO (h' s) = CO (h' b)) (stem_branches h vals s)"
      by auto
    then have "CO (h' s) \<in> set (CO (h s) # map (\<lambda>b. CO (h' b)) (stem_branches h vals s))"
      by (auto simp: list_ex_iff)
    moreover from low whole
    have "list_all (cle (CO (h' s))) (CO (h s) # map (\<lambda>b. CO (h' b)) (stem_branches h vals s))"
      by (simp add: list_all_iff)
    ultimately have "min_cost (CO (h s) # map (\<lambda>b. CO (h' b)) (stem_branches h vals s))
                       = Some (CO (h' s))"
      by (rule min_cost_char)
    with att False show ?thesis by simp
  qed
  from mono low fin show ?thesis by blast
qed

theorem C6_stem_CO_is_minimum_of_branches_witness:
  "let vals = gate_values branched_circuit;
       h = the (forward_pass (scoap_init (heap branched_circuit) vals) vals)
   in topological h vals \<and> co_bounded h \<and> cc_bounded h
      \<and> list_all (\<lambda>other_gate. 0 \<in> set (inputs (h other_gate)) \<longrightarrow> gtype (h other_gate) = Fanout) vals
      \<and> \<not> declared_output h vals 0
      \<and> stem_branches h vals 0 = [5, 6]
      \<and> CO (h 0) = Inf
      \<and> (\<exists>h'. backward_pass vals h (rev vals) = Some h'
            \<and> map (\<lambda>b. CO (h' b)) [5, 6] = [Fin 4, Fin 2]
            \<and> CO (h' 0) = Fin 2
            \<and> min_cost (CO (h 0) # map (\<lambda>b. CO (h' b)) (stem_branches h vals 0)) = Some (CO (h' 0)))"
proof -
  define vals where "vals = gate_values branched_circuit"
  define h where "h = the (forward_pass (scoap_init (heap branched_circuit) vals) vals)"
  have topo: "topological h vals"
    by (simp add: h_def vals_def topological_def branched_circuit_def scoap_eval)
  have co: "co_bounded h"
    by (simp add: h_def vals_def co_bounded_def branched_circuit_def scoap_eval)
  have cc: "cc_bounded h"
    by (simp add: h_def vals_def cc_bounded_def branched_circuit_def scoap_eval)
  have fo: "list_all (\<lambda>other_gate. 0 \<in> set (inputs (h other_gate)) \<longrightarrow> gtype (h other_gate) = Fanout) vals"
    by (simp add: h_def vals_def branched_circuit_def scoap_eval)
  have nd: "\<not> declared_output h vals 0"
    by (simp add: h_def vals_def declared_output_def branched_circuit_def scoap_eval)
  have sb: "stem_branches h vals 0 = [5, 6]"
    by (simp add: h_def vals_def stem_branches_def branched_circuit_def scoap_eval)
  have c0: "CO (h 0) = Inf"
    by (simp add: h_def vals_def branched_circuit_def scoap_eval)
  obtain h' where bw: "backward_pass vals h (rev vals) = Some h'"
    and b: "map (\<lambda>b. CO (h' b)) [5, 6] = [Fin 4, Fin 2]" and v: "CO (h' 0) = Fin 2"
    by (simp add: h_def vals_def branched_circuit_def scoap_eval)
  from C6_stem_CO_is_minimum_of_branches [OF bw topo co cc fo] nd
  have "min_cost (CO (h 0) # map (\<lambda>b. CO (h' b)) (stem_branches h vals 0)) = Some (CO (h' 0))"
    by simp
  with topo co cc fo nd sb c0 bw b v show ?thesis
    unfolding Let_def vals_def [symmetric] h_def [symmetric] by simp
qed

subsection \<open>PODEM: the generated test vector\<close>



lemmas podem_eval = generate_test_vector_def prepare_fault_def podem_init_def
  PODEM_init_def set_output_def set_fault_def success_def get_objective_def
  oppositeVal_def backtrace_step_def check_imply_gate_def inversion_def
  get_hardest_to_satisfy_gate_def get_easiest_to_satisfy_gate_def above_def
  imply_def assign_def d_algebra_evaluate_def evaluate_and_def clear_fault_def podem_reset_def
  test_vector_of_def pattern_value_def



subsection \<open>PODEM: the D-frontier\<close>

text \<open>
  Claim C4 at its failing input: the state \<open>activated_stem_state\<close>, which PODEM reaches
  on \<open>branched_circuit\<close> for the fault \<open>a\<close> stuck-at-0. The stem \<open>a\<close> and its branches
  \<open>a_1\<close>, \<open>a_2\<close> carry D; \<open>g1\<close> (object 7) and \<open>g2\<close> (object 8) have output X, a D
  input and are primary outputs, so both belong to the D-frontier as the claim
  describes it. \<open>generate_d_frontier\<close> leaves its loop at the \<open>break\<close> after the
  first such gate and holds \<open>g1\<close> only.
\<close>

theorem C4_frontier_stops_at_first_candidate:
  "map (\<lambda>g. output (heap (circuit activated_stem_state) g)) [0, 5, 6, 7, 8] = [VD, VD, VD, VX, VX]
   \<and> D_Frontier (generate_d_frontier activated_stem_state) = [7]
   \<and> spec_d_frontier (circuit activated_stem_state) = [7, 8]"
  by (simp add: activated_stem_state_def branched_circuit_def scoap_eval podem_eval
      eval_nat_numeral generate_d_frontier_def spec_d_frontier_def x_path_check_def
      evaluate_fanout_def)

subsection \<open>PODEM: the descent of the backtrace\<close>



lemma cle_ckey: "cle a b \<longleftrightarrow> ckey a \<le> ckey b"
  by (cases a; cases b) (auto simp: ckey_def)

lemma clt_ckey: "clt a b \<longleftrightarrow> ckey a < ckey b"
  by (auto simp: clt_def cle_ckey)

lemma ckey_Inf: "ckey a \<le> ckey Inf" "ckey a = ckey Inf \<longleftrightarrow> a = Inf"
  by (cases a; auto simp: ckey_def)+

lemma hardest_loop_char:
  assumes "v = V0 \<or> v = V1"
    and "case hg of None \<Rightarrow> hv = None
         | Some g0 \<Rightarrow> hv = Some (target_cc h v g0) \<and> output (h g0) = VX"
  shows "case hardest_loop h v hg hv gs of
           None \<Rightarrow> hg = None \<and> filter (\<lambda>c. output (h c) = VX) gs = []
         | Some c \<Rightarrow> (c \<in> set gs \<or> hg = Some c) \<and> output (h c) = VX
              \<and> list_all (\<lambda>c'. cle (target_cc h v c') (target_cc h v c))
                   (filter (\<lambda>c. output (h c) = VX) gs)
              \<and> (case hg of None \<Rightarrow> True | Some g0 \<Rightarrow> cle (target_cc h v g0) (target_cc h v c))"
  using assms
proof (induction gs arbitrary: hg hv)
  case Nil
  then show ?case by (auto split: option.splits simp: cle_ckey)
next
  case (Cons g gs)
  show ?case
  proof (cases "output (h g) = VX")
    case False
    with Cons.IH [OF Cons.prems] show ?thesis
      by (auto split: option.splits)
  next
    case X: True
    show ?thesis
    proof (cases "above (target_cc h v g) hv")
      case True
      have "case Some g of None \<Rightarrow> Some (target_cc h v g) = None
         | Some g0 \<Rightarrow> Some (target_cc h v g) = Some (target_cc h v g0) \<and> output (h g0) = VX"
        using X by simp
      note ih = Cons.IH [OF Cons.prems(1) this]
      have step: "hardest_loop h v hg hv (g # gs)
            = hardest_loop h v (Some g) (Some (target_cc h v g)) gs"
        using True X Cons.prems(1) by (auto simp: target_cc_def)
      show ?thesis
        unfolding step using ih True Cons.prems(2) X
        by (auto split: option.splits simp: above_def cle_ckey clt_ckey)
    next
      case False
      note ih = Cons.IH [OF Cons.prems]
      have step: "hardest_loop h v hg hv (g # gs) = hardest_loop h v hg hv gs"
        using False X Cons.prems(1) by (auto simp: target_cc_def)
      show ?thesis
        unfolding step using ih False Cons.prems(2) X
        by (auto split: option.splits simp: above_def cle_ckey clt_ckey)
    qed
  qed
qed


lemma easiest_loop_char:
  assumes "v = V0 \<or> v = V1"
    and "case eg of None \<Rightarrow> ev = Inf
         | Some g0 \<Rightarrow> ev = target_cc h v g0 \<and> output (h g0) = VX"
  shows "case easiest_loop h v eg ev gs of
           None \<Rightarrow> eg = None
              \<and> list_all (\<lambda>c'. target_cc h v c' = Inf) (filter (\<lambda>c. output (h c) = VX) gs)
         | Some c \<Rightarrow> (c \<in> set gs \<or> eg = Some c) \<and> output (h c) = VX
              \<and> list_all (\<lambda>c'. cle (target_cc h v c) (target_cc h v c'))
                   (filter (\<lambda>c. output (h c) = VX) gs)
              \<and> cle (target_cc h v c) ev"
  using assms
proof (induction gs arbitrary: eg ev)
  case Nil
  then show ?case by (auto split: option.splits simp: cle_ckey)
next
  case (Cons g gs)
  show ?case
  proof (cases "output (h g) = VX")
    case False
    with Cons.IH [OF Cons.prems] show ?thesis
      by (auto split: option.splits)
  next
    case X: True
    show ?thesis
    proof (cases "clt (target_cc h v g) ev")
      case True
      have "case Some g of None \<Rightarrow> target_cc h v g = Inf
         | Some g0 \<Rightarrow> target_cc h v g = target_cc h v g0 \<and> output (h g0) = VX"
        using X by simp
      note ih = Cons.IH [OF Cons.prems(1) this]
      have step: "easiest_loop h v eg ev (g # gs)
            = easiest_loop h v (Some g) (target_cc h v g) gs"
        using True X Cons.prems(1) by (auto simp: target_cc_def)
      show ?thesis
        unfolding step using ih True Cons.prems(2) X
        by (auto split: option.splits simp: cle_ckey clt_ckey)
    next
      case False
      note ih = Cons.IH [OF Cons.prems]
      have step: "easiest_loop h v eg ev (g # gs) = easiest_loop h v eg ev gs"
        using False X Cons.prems(1) by (auto simp: target_cc_def)
      have inf: "ev = Inf \<Longrightarrow> target_cc h v g = Inf"
        using False ckey_Inf [of "target_cc h v g"] by (auto simp: clt_ckey)
      show ?thesis
        unfolding step using ih False Cons.prems(2) X inf
        by (auto split: option.splits simp: cle_ckey clt_ckey)
    qed
  qed
qed

lemma check_imply_gate_pairs:
  "check_imply_gate t v = hardest_pair t v"
  by (cases t) (auto simp: check_imply_gate_def hardest_pair_def)

text \<open>
  Claim C5, as stated, at a two-input xor wanting 1 (not one of the four pairs): the
  children \<open>a\<close> (object 0, \<open>CC1 = 1\<close>) and \<open>m\<close> (object 3, \<open>CC1 = 3\<close>) both have
  output X; the claim sends the walk to the smallest controllability, the code
  descends into \<open>m\<close>, the largest.
\<close>

theorem C5_xor_descends_hardest:
  "gtype (xor_store 4) = Xor \<and> \<not> inversion (gtype (xor_store 4))
   \<and> x_children xor_store 4 = [0, 3]
   \<and> target_cc xor_store V1 0 = Fin 1 \<and> target_cc xor_store V1 3 = Fin 3
   \<and> backtrace_step xor_store 4 V1 = (Some 3, V1)"
  by (simp add: xor_store_def xor_circuit_def scoap_eval podem_eval x_children_def target_cc_def)

text \<open>
  Claim C5, amended: at a backtrace step at a gate that is not a primary input, with
  target value \<open>v\<close> (the objective value, flipped when the gate is inverting), the walk
  descends via \<open>get_hardest_to_satisfy_gate\<close> exactly when \<open>check_imply_gate\<close> holds,
  that is for and/1, or/0, nand/0, nor/1 and also for every xor, xnor, not, buf, fanout
  or unknown gate with \<open>v\<close> equal to 0 or 1; it descends via
  \<open>get_easiest_to_satisfy_gate\<close> otherwise. For a non-inverting gate and \<open>v\<close> equal to
  0 or 1, the hardest choice is a child with output X whose controllability of \<open>v\<close>
  (CC0 if \<open>v\<close> is 0, else CC1) is largest among the children with output X (none is
  chosen only when there is no such child), and the easiest choice is such a child of
  smallest controllability (none is chosen only when all of them have infinite
  controllability).
\<close>

theorem C5_backtrace_descent:
  fixes h :: store and g :: nat and ov :: val
  defines "v \<equiv> (if inversion (gtype (h g)) then oppositeVal ov else ov)"
  shows "backtrace_step h g ov =
           (if hardest_pair (gtype (h g)) v then get_hardest_to_satisfy_gate h g ov
            else get_easiest_to_satisfy_gate h g ov, v)
         \<and> (\<not> inversion (gtype (h g)) \<and> (v = V0 \<or> v = V1) \<longrightarrow>
              (case fst (backtrace_step h g ov) of
                 None \<Rightarrow>
                   (if hardest_pair (gtype (h g)) v then x_children h g = []
                    else list_all (\<lambda>c'. target_cc h v c' = Inf) (x_children h g))
               | Some c \<Rightarrow>
                   c \<in> set (x_children h g)
                   \<and> (if hardest_pair (gtype (h g)) v
                      then list_all (\<lambda>c'. cle (target_cc h v c') (target_cc h v c)) (x_children h g)
                      else list_all (\<lambda>c'. cle (target_cc h v c) (target_cc h v c')) (x_children h g))))"
proof (intro conjI impI)
  show a: "backtrace_step h g ov =
           (if hardest_pair (gtype (h g)) v then get_hardest_to_satisfy_gate h g ov
            else get_easiest_to_satisfy_gate h g ov, v)"
    by (simp add: backtrace_step_def Let_def v_def check_imply_gate_pairs)
  assume b: "\<not> inversion (gtype (h g)) \<and> (v = V0 \<or> v = V1)"
  then have ov: "ov = v" by (simp add: v_def)
  from b have v: "v = V0 \<or> v = V1" by simp
  have init: "case None of None \<Rightarrow> (None :: cost option) = None
         | Some g0 \<Rightarrow> None = Some (target_cc h v g0) \<and> output (h g0) = VX"
    "case None of None \<Rightarrow> Inf = Inf
         | Some g0 \<Rightarrow> Inf = target_cc h v g0 \<and> output (h g0) = VX"
    by simp_all
  note hard = hardest_loop_char [OF v init(1), where gs = "inputs (h g)"]
  note easy = easiest_loop_char [OF v init(2), where gs = "inputs (h g)"]
  show "case fst (backtrace_step h g ov) of
                 None \<Rightarrow>
                   (if hardest_pair (gtype (h g)) v then x_children h g = []
                    else list_all (\<lambda>c'. target_cc h v c' = Inf) (x_children h g))
               | Some c \<Rightarrow>
                   c \<in> set (x_children h g)
                   \<and> (if hardest_pair (gtype (h g)) v
                      then list_all (\<lambda>c'. cle (target_cc h v c') (target_cc h v c)) (x_children h g)
                      else list_all (\<lambda>c'. cle (target_cc h v c) (target_cc h v c')) (x_children h g))"
  proof (cases "hardest_pair (gtype (h g)) v")
    case True
    then have "fst (backtrace_step h g ov) = hardest_loop h v None None (inputs (h g))"
      by (simp add: a [unfolded ov] get_hardest_to_satisfy_gate_def ov)
    with hard True show ?thesis
      unfolding x_children_def by (auto split: option.splits)
  next
    case False
    then have "fst (backtrace_step h g ov) = easiest_loop h v None Inf (inputs (h g))"
      by (simp add: a [unfolded ov] get_easiest_to_satisfy_gate_def ov)
    with easy False show ?thesis
      unfolding x_children_def by (auto split: option.splits)
  qed
qed


theorem C5_backtrace_descent_witness:
  "backtrace_step and2_store 2 V0 = (Some 0, V0)
   \<and> \<not> inversion (gtype (and2_store 2))
   \<and> \<not> hardest_pair (gtype (and2_store 2)) V0
   \<and> 0 \<in> set (x_children and2_store 2)
   \<and> list_all (\<lambda>c'. cle (target_cc and2_store V0 0) (target_cc and2_store V0 c'))
        (x_children and2_store 2)"
proof -
  have t: "gtype (and2_store 2) = And"
    by (simp add: and2_store_def and2_circuit_def scoap_eval podem_eval)
  have e: "backtrace_step and2_store 2 V0 = (Some 0, V0)"
    by (simp add: and2_store_def and2_circuit_def scoap_eval podem_eval)
  have n: "\<not> inversion (gtype (and2_store 2))" "\<not> hardest_pair (gtype (and2_store 2)) V0"
    by (simp_all add: t inversion_def hardest_pair_def)
  have pre: "\<not> inversion (gtype (and2_store 2))
      \<and> ((if inversion (gtype (and2_store 2)) then oppositeVal V0 else V0) = V0
         \<or> (if inversion (gtype (and2_store 2)) then oppositeVal V0 else V0) = V1)"
    by (simp add: n)
  from C5_backtrace_descent [of and2_store 2 V0, THEN conjunct2, THEN mp, OF pre]
  show ?thesis by (simp add: e n)
qed

subsection \<open>The parser: truncated names and the re-keyed map\<close>



lemma set_update_subset:
  "x \<in> set (AList.update k v al) \<Longrightarrow> x = (k, v) \<or> x \<in> set al"
  by (induction al) (auto split: if_splits)

lemma rekey_lookup:
  "map_of (rekey h d items) k =
     (case filter (\<lambda>(a, r). name (h r) = k) items of
        [] \<Rightarrow> map_of d k
      | xs \<Rightarrow> Some (snd (last xs)))"
proof (induction items arbitrary: d)
  case Nil
  then show ?case by simp
next
  case (Cons item items)
  obtain a r where item: "item = (a, r)" by (cases item)
  show ?case
    by (cases "filter (\<lambda>(a, r). name (h r) = k) items")
      (auto simp: item Cons.IH update_conv)
qed

lemma rekey_keys_are_names:
  "list_all (\<lambda>(k, r). name (h r) = k) d \<Longrightarrow> list_all (\<lambda>(k, r). name (h r) = k) (rekey h d items)"
proof (induction items arbitrary: d)
  case Nil
  then show ?case by simp
next
  case (Cons item items)
  obtain a r where item: "item = (a, r)" by (cases item)
  have "list_all (\<lambda>(k, r). name (h r) = k) (AList.update (name (h r)) r d)"
    using Cons.prems by (auto simp: list_all_iff dest!: set_update_subset)
  then show ?case by (simp add: item Cons.IH)
qed

lemma parse_lines_append:
  "parse_lines st (xs @ ys) =
     (case parse_lines st xs of None \<Rightarrow> None | Some st1 \<Rightarrow> parse_lines st1 ys)"
  by (induction xs arbitrary: st) (auto split: option.splits)

lemma parse_line_names:
  assumes "parse_line st l = Some st'" "r < next_ref st"
  shows "name (heap (circ st') r) = name (heap (circ st) r)" "next_ref st \<le> next_ref st'"
  using assms
  by (cases l; auto simp: store_gate_def Let_def split: option.splits; fail)+

lemma parse_lines_names:
  "parse_lines st ls = Some st' \<Longrightarrow> r < next_ref st
   \<Longrightarrow> name (heap (circ st') r) = name (heap (circ st) r)"
proof (induction ls arbitrary: st)
  case Nil
  then show ?case by simp
next
  case (Cons l ls)
  from Cons.prems obtain st1 where a: "parse_line st l = Some st1" and b: "parse_lines st1 ls = Some st'"
    by (auto split: option.splits)
  note n = parse_line_names [OF a Cons.prems(2)]
  from n(2) Cons.prems(2) have "r < next_ref st1" by simp
  from Cons.IH [OF b this] n(1) show ?case by simp
qed

lemma parse_line_binding:
  assumes "parse_line st l = Some st'" "a \<notin> set (declared_addresses [l])"
  shows "map_of (gates (circ st')) a = map_of (gates (circ st)) a"
  using assms
proof (cases l)
  case (GateLine a' n t fo fi fs)
  with assms show ?thesis by (auto simp: store_gate_def update_conv)
next
  case (BranchLine a' n s fs)
  with assms show ?thesis
    by (auto simp: store_gate_def Let_def update_conv split: option.splits)
next
  case (NumbersLine parts)
  with assms show ?thesis
    by (auto simp: Let_def split: option.splits)
next
  case Ignored
  with assms show ?thesis by simp
qed

lemma declared_addresses_Cons:
  "set (declared_addresses (l # ls)) = set (declared_addresses [l]) \<union> set (declared_addresses ls)"
  by (cases l) auto

lemma parse_lines_binding:
  "parse_lines st ls = Some st' \<Longrightarrow> a \<notin> set (declared_addresses ls)
   \<Longrightarrow> map_of (gates (circ st')) a = map_of (gates (circ st)) a"
proof (induction ls arbitrary: st)
  case Nil
  then show ?case by simp
next
  case (Cons l ls)
  from Cons.prems(1) obtain st1 where a: "parse_line st l = Some st1" and b: "parse_lines st1 ls = Some st'"
    by (auto split: option.splits)
  from Cons.prems(2) have "a \<notin> set (declared_addresses [l])" "a \<notin> set (declared_addresses ls)"
    by (simp_all add: declared_addresses_Cons [of l ls])
  with parse_line_binding [OF a] Cons.IH [OF b] show ?case by simp
qed

lemma gate_line_stored:
  assumes "parse_lines st (GateLine a n t fo fi fs # post) = Some st'"
    and "a \<notin> set (declared_addresses post)"
  shows "map_of (gates (circ st')) a = Some (next_ref st)
         \<and> name (heap (circ st') (next_ref st)) = take (length n - 3) n"
proof -
  let ?st1 = "(store_gate st a (Gate_init a (take (length n - 3) n) t fo fi fs))
                \<lparr>current_gate := Some (next_ref st)\<rparr>"
  from assms(1) have r: "parse_lines ?st1 post = Some st'" by simp
  have "map_of (gates (circ ?st1)) a = Some (next_ref st)"
    by (simp add: store_gate_def update_conv)
  moreover have "name (heap (circ ?st1) (next_ref st)) = take (length n - 3) n"
    by (simp add: store_gate_def Gate_init_def)
  moreover have "next_ref st < next_ref ?st1" by (simp add: store_gate_def)
  ultimately show ?thesis
    using parse_lines_binding [OF r assms(2)] parse_lines_names [OF r, of "next_ref st"]
    by simp
qed


lemma podem_init_loop_name: "name (podem_init_loop h gs r) = name (h r)"
  by (induction gs arbitrary: h) (simp_all add: set_output_def)

lemma prepare_fault_lookup:
  assumes "prepare_fault (PODEM_init c) (k, sv) = Some p"
  shows "\<exists>r. fault_gate p = Some r \<and> map_of (gates c) k = Some r"
  using assms
  by (auto simp: prepare_fault_def podem_init_def PODEM_init_def Let_def split: option.splits)

lemma update_fresh: "k \<notin> fst ` set al \<Longrightarrow> AList.update k v al = al @ [(k, v)]"
  by (induction al) auto

lemma declared_addresses_append1:
  "declared_addresses (l # ls) = declared_addresses [l] @ declared_addresses ls"
  by (cases l) auto

lemma parse_line_refs:
  assumes "parse_line st l = Some st'"
  shows "next_ref st' = next_ref st + length (declared_addresses [l])"
  using assms
  by (cases l) (auto simp: store_gate_def Let_def split: option.splits)

lemma parse_lines_refs:
  "parse_lines st ls = Some st' \<Longrightarrow> next_ref st' = next_ref st + length (declared_addresses ls)"
proof (induction ls arbitrary: st)
  case Nil
  then show ?case by simp
next
  case (Cons l ls)
  from Cons.prems obtain st1 where a: "parse_line st l = Some st1" and b: "parse_lines st1 ls = Some st'"
    by (auto split: option.splits)
  from parse_line_refs [OF a] Cons.IH [OF b] declared_addresses_append1 [of l ls]
  show ?case by simp
qed

lemma parse_line_addresses:
  assumes "parse_line st l = Some st'" "r < next_ref st"
  shows "address (heap (circ st') r) = address (heap (circ st) r)"
  using assms
  by (cases l) (auto simp: store_gate_def Let_def split: option.splits)

lemma parse_lines_addresses:
  "parse_lines st ls = Some st' \<Longrightarrow> r < next_ref st
   \<Longrightarrow> address (heap (circ st') r) = address (heap (circ st) r)"
proof (induction ls arbitrary: st)
  case Nil
  then show ?case by simp
next
  case (Cons l ls)
  from Cons.prems obtain st1 where a: "parse_line st l = Some st1" and b: "parse_lines st1 ls = Some st'"
    by (auto split: option.splits)
  from parse_line_refs [OF a] Cons.prems(2) have "r < next_ref st1" by simp
  from Cons.IH [OF b this] parse_line_addresses [OF a Cons.prems(2)] show ?case by simp
qed

lemma gate_line_object:
  assumes "parse_lines st (GateLine a n t fo fi fs # post) = Some st'"
  shows "name (heap (circ st') (next_ref st)) = take (length n - 3) n"
    and "address (heap (circ st') (next_ref st)) = a"
proof -
  let ?st1 = "(store_gate st a (Gate_init a (take (length n - 3) n) t fo fi fs))
                \<lparr>current_gate := Some (next_ref st)\<rparr>"
  from assms(1) have r: "parse_lines ?st1 post = Some st'" by simp
  have lt: "next_ref st < next_ref ?st1" by (simp add: store_gate_def)
  have "name (heap (circ ?st1) (next_ref st)) = take (length n - 3) n"
    by (simp add: store_gate_def Gate_init_def)
  with parse_lines_names [OF r lt] show "name (heap (circ st') (next_ref st)) = take (length n - 3) n"
    by simp
  have "address (heap (circ ?st1) (next_ref st)) = a"
    by (simp add: store_gate_def Gate_init_def)
  with parse_lines_addresses [OF r lt] show "address (heap (circ st') (next_ref st)) = a"
    by simp
qed

lemma parse_line_order:
  assumes "parse_line st l = Some st'"
    and "set (declared_addresses [l]) \<inter> fst ` set (gates (circ st)) = {}"
  shows "gates (circ st') = gates (circ st) @ zip (declared_addresses [l]) [next_ref st]"
  using assms
  by (cases l) (auto simp: store_gate_def Let_def update_fresh split: option.splits)

lemma zip_upt_Cons:
  "zip (a # as) [n ..< Suc (n + m)] = (a, n) # zip as [Suc n ..< Suc (n + m)]"
  by (simp add: upt_conv_Cons del: upt_Suc)

lemma parse_lines_order:
  "parse_lines st ls = Some st' \<Longrightarrow> distinct (map fst (gates (circ st)) @ declared_addresses ls)
   \<Longrightarrow> gates (circ st') = gates (circ st)
         @ zip (declared_addresses ls) [next_ref st ..< next_ref st + length (declared_addresses ls)]"
proof (induction ls arbitrary: st)
  case Nil
  then show ?case by simp
next
  case (Cons l ls)
  from Cons.prems(1) obtain st1 where a: "parse_line st l = Some st1" and b: "parse_lines st1 ls = Some st'"
    by (auto split: option.splits)
  note split = declared_addresses_append1 [of l ls]
  from Cons.prems(2) have fresh: "set (declared_addresses [l]) \<inter> fst ` set (gates (circ st)) = {}"
    unfolding split by auto
  note o = parse_line_order [OF a fresh]
  note n = parse_line_refs [OF a]
  have len: "length (declared_addresses [l]) \<le> 1" by (cases l) auto
  from Cons.prems(2) have "distinct (map fst (gates (circ st1)) @ declared_addresses ls)"
    unfolding split o using len by (cases "declared_addresses [l]") auto
  from Cons.IH [OF b this] show ?case
    unfolding split o n using len
    by (cases "declared_addresses [l]") (simp_all add: zip_upt_Cons del: upt_Suc)
qed

lemma last_filter_upt:
  "filter P [0..<n] \<noteq> [] \<Longrightarrow>
   last (filter P [0..<n]) = r \<longleftrightarrow> r < n \<and> P r \<and> (\<forall>r'. r' < n \<and> P r' \<longrightarrow> r' \<le> r)"
proof (induction n)
  case 0
  then show ?case by simp
next
  case (Suc n)
  show ?case
  proof (cases "P n")
    case True
    then show ?thesis by (auto simp: less_Suc_eq)
  next
    case False
    with Suc.prems have "filter P [0..<n] \<noteq> []" by simp
    from Suc.IH [OF this] False show ?thesis
      by (auto simp: less_Suc_eq)
  qed
qed

lemma lookup_last_declared:
  assumes "map snd items = [0..<n]"
  shows "(case filter (\<lambda>(a, r). P r) items of [] \<Rightarrow> None | xs \<Rightarrow> Some (snd (last xs))) = Some r
         \<longleftrightarrow> r < n \<and> P r \<and> (\<forall>r'. r' < n \<and> P r' \<longrightarrow> r' \<le> r)"
proof -
  let ?xs = "filter (\<lambda>(a, r). P r) items"
  have m: "map snd ?xs = filter P [0..<n]"
    unfolding assms [symmetric] filter_map by (simp add: comp_def case_prod_unfold)
  show ?thesis
  proof (cases "?xs = []")
    case True
    with m have "filter P [0..<n] = []" by simp
    then have "\<not> (r < n \<and> P r)" by (auto simp: filter_empty_conv)
    with True show ?thesis by auto
  next
    case False
    with m have ne: "filter P [0..<n] \<noteq> []" by (metis map_is_Nil_conv)
    from False have "snd (last ?xs) = last (filter P [0..<n])"
      unfolding m [symmetric] by (simp add: last_map)
    with last_filter_upt [OF ne, of r] False show ?thesis
      by (auto split: list.splits)
  qed
qed

lemmas parser_eval = load_iscas_file_def colliding_lines_def parser_init_def store_gate_def
  Gate_init_def empty_store_def Let_def

text \<open>
  Claim C10, as stated, on \<open>redeclared_lines\<close>: the three declarations create the objects
  0, 1 and 2, all named \<open>a\<close>; the third declaration re-binds the address 1, whose key
  stands first in the address map, so the re-keying visits the object 2 before the object
  1. The map ends with the gate of the second declaration (address 2) under \<open>a\<close>: the
  later, third declaration has not replaced it.
\<close>

theorem C10_redeclared_address_keeps_earlier_gate:
  "\<exists>c. load_iscas_file redeclared_lines = Some c
      \<and> map (\<lambda>r. (address (heap c r), name (heap c r))) [0, 1, 2] = [(1, ''a''), (2, ''a''), (1, ''a'')]
      \<and> gates c = [(''a'', 1)]"
  by (simp add: load_iscas_file_def redeclared_lines_def parser_init_def store_gate_def
      Gate_init_def empty_store_def Let_def)

text \<open>
  Claim C10, amended: when \<open>load_iscas_file\<close> completes, (1) the gate declared by the
  \<open>i\<close>-th declaration line is the object \<open>i\<close>, with the declared address and, for a
  gate declaration, the declared name without its last three characters; if no later line
  declares its address again, the address map binds the address to it and some gate is
  stored under that name; (2) the final map is the address map re-keyed by the objects'
  names, so every key is the name of the gate it holds; (3) a lookup of a name yields the
  last gate, in the order of the address map, that carries this name; (4) when no address
  is declared twice, the address map lists the objects in the order of their
  declarations, and a name is bound to the object declared last among those that carry
  it: the later declaration replaces the earlier one; (5) the fault list's lookup in
  \<open>generate_test_vector\<close> finds a gate only under its stored (truncated) name.
\<close>

theorem C10_truncated_names:
  assumes "load_iscas_file lines = Some c"
  shows "\<exists>st. parse_lines parser_init lines = Some st
           \<and> heap c = heap (circ st)
           \<and> gates c = rekey (heap c) [] (gates (circ st))
           \<and> (\<forall>pre a n t fo fi fs post.
                 lines = pre @ GateLine a n t fo fi fs # post
                 \<longrightarrow> name (heap c (length (declared_addresses pre))) = take (length n - 3) n
                     \<and> address (heap c (length (declared_addresses pre))) = a
                     \<and> (a \<notin> set (declared_addresses post)
                          \<longrightarrow> map_of (gates (circ st)) a = Some (length (declared_addresses pre))
                              \<and> map_of (gates c) (take (length n - 3) n) \<noteq> None))
           \<and> list_all (\<lambda>(k, r). name (heap c r) = k) (gates c)
           \<and> (\<forall>k. map_of (gates c) k =
                    (case filter (\<lambda>(a, r). name (heap c r) = k) (gates (circ st)) of
                       [] \<Rightarrow> None
                     | xs \<Rightarrow> Some (snd (last xs))))
           \<and> (distinct (declared_addresses lines)
                \<longrightarrow> gates (circ st)
                      = zip (declared_addresses lines) [0 ..< length (declared_addresses lines)]
                    \<and> (\<forall>k r. map_of (gates c) k = Some r
                          \<longleftrightarrow> r < length (declared_addresses lines) \<and> name (heap c r) = k
                              \<and> (\<forall>r'. r' < length (declared_addresses lines) \<and> name (heap c r') = k
                                     \<longrightarrow> r' \<le> r)))
           \<and> (\<forall>k sv p. prepare_fault (PODEM_init c) (k, sv) = Some p
                 \<longrightarrow> (\<exists>r. fault_gate p = Some r \<and> name (heap c r) = k))"
proof -
  from assms obtain st where
    st: "parse_lines parser_init lines = Some st" and
    c: "c = \<lparr>heap = heap (circ st), gates = rekey (heap (circ st)) [] (gates (circ st)),
             primary_inputs = [], primary_outputs = []\<rparr>"
    by (auto simp: load_iscas_file_def split: option.splits)
  have h: "heap c = heap (circ st)" and g: "gates c = rekey (heap c) [] (gates (circ st))"
    by (simp_all add: c)
  have look: "map_of (gates c) k =
                (case filter (\<lambda>(a, r). name (heap c r) = k) (gates (circ st)) of
                   [] \<Rightarrow> None
                 | xs \<Rightarrow> Some (snd (last xs)))" for k
    by (simp add: g rekey_lookup split: list.splits)
  have keys: "list_all (\<lambda>(k, r). name (heap c r) = k) (gates c)"
    unfolding g by (rule rekey_keys_are_names) simp
  have decl: "name (heap c (length (declared_addresses pre))) = take (length n - 3) n
              \<and> address (heap c (length (declared_addresses pre))) = a
              \<and> (a \<notin> set (declared_addresses post)
                   \<longrightarrow> map_of (gates (circ st)) a = Some (length (declared_addresses pre))
                       \<and> map_of (gates c) (take (length n - 3) n) \<noteq> None)"
    if l: "lines = pre @ GateLine a n t fo fi fs # post"
    for pre a n t fo fi fs post
  proof -
    from st l obtain st1 where
      p: "parse_lines parser_init pre = Some st1" and
      r: "parse_lines st1 (GateLine a n t fo fi fs # post) = Some st"
      by (auto simp: parse_lines_append split: option.splits)
    from parse_lines_refs [OF p] have ref: "next_ref st1 = length (declared_addresses pre)"
      by (simp add: parser_init_def)
    note obj = gate_line_object [OF r, unfolded ref, folded h]
    have "map_of (gates (circ st)) a = Some (length (declared_addresses pre))
          \<and> map_of (gates c) (take (length n - 3) n) \<noteq> None"
      if nd: "a \<notin> set (declared_addresses post)"
    proof -
      from gate_line_stored [OF r nd] have
        m: "map_of (gates (circ st)) a = Some (length (declared_addresses pre))"
        by (simp add: ref)
      from m have "(a, length (declared_addresses pre)) \<in> set (gates (circ st))"
        by (rule map_of_SomeD)
      with obj(1) have "(a, length (declared_addresses pre))
          \<in> set (filter (\<lambda>(a, r). name (heap c r) = take (length n - 3) n) (gates (circ st)))"
        by simp
      then have "filter (\<lambda>(a, r). name (heap c r) = take (length n - 3) n) (gates (circ st)) \<noteq> []"
        by (metis empty_iff empty_set)
      then have "map_of (gates c) (take (length n - 3) n) \<noteq> None"
        by (simp add: look split: list.splits)
      with m show ?thesis by simp
    qed
    with obj show ?thesis by simp
  qed
  have order: "gates (circ st)
                 = zip (declared_addresses lines) [0 ..< length (declared_addresses lines)]
               \<and> (\<forall>k r. map_of (gates c) k = Some r
                     \<longleftrightarrow> r < length (declared_addresses lines) \<and> name (heap c r) = k
                         \<and> (\<forall>r'. r' < length (declared_addresses lines) \<and> name (heap c r') = k
                                \<longrightarrow> r' \<le> r))"
    if d: "distinct (declared_addresses lines)"
  proof -
    from parse_lines_order [OF st] d have
      z: "gates (circ st) = zip (declared_addresses lines) [0 ..< length (declared_addresses lines)]"
      by (simp add: parser_init_def)
    have "map snd (zip (declared_addresses lines) [0 ..< length (declared_addresses lines)])
            = [0 ..< length (declared_addresses lines)]"
      by simp
    then have s: "map snd (gates (circ st)) = [0 ..< length (declared_addresses lines)]"
      unfolding z [symmetric] .
    have "map_of (gates c) k = Some r
            \<longleftrightarrow> r < length (declared_addresses lines) \<and> name (heap c r) = k
                \<and> (\<forall>r'. r' < length (declared_addresses lines) \<and> name (heap c r') = k \<longrightarrow> r' \<le> r)"
      for k r
      unfolding look [of k]
      by (rule lookup_last_declared [OF s, where P = "\<lambda>r. name (heap c r) = k"])
    with z show ?thesis by blast
  qed
  have fault: "\<exists>r. fault_gate p = Some r \<and> name (heap c r) = k"
    if "prepare_fault (PODEM_init c) (k, sv) = Some p" for k sv p
  proof -
    from prepare_fault_lookup [OF that] obtain r where
      r: "fault_gate p = Some r" "map_of (gates c) k = Some r" by blast
    from r(2) have "(k, r) \<in> set (gates c)" by (rule map_of_SomeD)
    with keys have "name (heap c r) = k" by (auto simp: list_all_iff)
    with r show ?thesis by blast
  qed
  from st h g decl keys look order fault show ?thesis by blast
qed

theorem C10_truncated_names_witness:
  "\<exists>c. load_iscas_file colliding_lines = Some c
      \<and> distinct (declared_addresses colliding_lines)
      \<and> gates c = [(''a'', 1), (''o1'', 2)]
      \<and> map (\<lambda>r. (address (heap c r), name (heap c r))) [0, 1, 2] = [(1, ''a''), (2, ''a''), (3, ''o1'')]
      \<and> map_of (gates c) ''a'' = Some 1
      \<and> map_of (gates c) ''a123'' = None
      \<and> list_all (\<lambda>(k, r). name (heap c r) = k) (gates c)"
proof -
  obtain c where c: "load_iscas_file colliding_lines = Some c"
    and g: "gates c = [(''a'', 1), (''o1'', 2)]"
    and a: "map (\<lambda>r. (address (heap c r), name (heap c r))) [0, 1, 2]
              = [(1, ''a''), (2, ''a''), (3, ''o1'')]"
    by (simp add: parser_eval)
  have d: "distinct (declared_addresses colliding_lines)"
    by (simp add: colliding_lines_def)
  from C10_truncated_names [OF c] d have
    l: "list_all (\<lambda>(k, r). name (heap c r) = k) (gates c)" and
    i: "map_of (gates c) ''a'' = Some 1
          \<longleftrightarrow> 1 < length (declared_addresses colliding_lines) \<and> name (heap c 1) = ''a''
              \<and> (\<forall>r'. r' < length (declared_addresses colliding_lines) \<and> name (heap c r') = ''a''
                     \<longrightarrow> r' \<le> 1)"
    by blast+
  have "\<forall>r'. r' < length (declared_addresses colliding_lines) \<and> name (heap c r') = ''a'' \<longrightarrow> r' \<le> 1"
    using a by (auto simp: colliding_lines_def less_Suc_eq eval_nat_numeral)
  with i a have "map_of (gates c) ''a'' = Some 1"
    by (simp add: colliding_lines_def)
  with c d g a l show ?thesis by simp
qed

subsection \<open>The event-driven simulator: scheduling and commit of one gate\<close>


lemma update_output_loop_char:
  "sorted (map fst es) \<Longrightarrow>
   update_output_loop es T out =
     (filter (\<lambda>(et, po). \<not> et \<le> T) es,
      case filter (\<lambda>(et, po). et \<le> T) es of [] \<Rightarrow> out | xs \<Rightarrow> snd (last xs))"
proof (induction es arbitrary: out)
  case Nil
  then show ?case by simp
next
  case (Cons e es)
  obtain et v where e: "e = (et, v)" by (cases e)
  show ?case
  proof (cases "et \<le> T")
    case True
    with Cons show ?thesis
      by (cases "filter (\<lambda>(et, po). et \<le> T) es") (auto simp: e)
  next
    case False
    with Cons.prems have "\<forall>x \<in> set es. \<not> fst x \<le> T"
      by (auto simp: e)
    then have "filter (\<lambda>(et, po). et \<le> T) es = []" "filter (\<lambda>(et, po). \<not> et \<le> T) es = es"
      by (auto simp: filter_empty_conv filter_id_conv)
    with False show ?thesis by (simp add: e)
  qed
qed

lemma filter_heappush_event:
  "filter (\<lambda>(et, po). et = F) (heappush_event (filter (\<lambda>(et, po). et \<noteq> F) es) (F, v)) = [(F, v)]"
proof -
  have none: "filter (\<lambda>(et, po). et = F) (filter (\<lambda>(et, po). et \<noteq> F) es) = []"
    by (auto simp: filter_empty_conv)
  have ins: "filter (\<lambda>(et, po). et = F) (insort_key fst (F, v) xs)
          = (F, v) # filter (\<lambda>(et, po). et = F) xs" if "\<forall>x \<in> set xs. fst x \<noteq> F" for xs
    using that by (induction xs) auto
  from none show ?thesis
    by (auto simp: heappush_event_def ins)
qed

lemma sorted_heappush_event:
  "sorted (map fst es) \<Longrightarrow> sorted (map fst (heappush_event (filter P es) e))"
  by (simp add: heappush_event_def sorted_insort_key sorted_filter)


lemma filter_le_split:
  "sorted (map fst es) \<Longrightarrow>
   filter (\<lambda>(et, po). et \<le> F) es
     = filter (\<lambda>(et, po). et < F) es @ filter (\<lambda>(et, po). et = (F::int)) es"
proof (induction es)
  case Nil
  then show ?case by simp
next
  case (Cons e es)
  obtain et v where e: "e = (et, v)" by (cases e)
  from Cons.prems have ge: "\<forall>x \<in> set es. et \<le> fst x" and s: "sorted (map fst es)"
    by (auto simp: e)
  show ?case
  proof (cases "et < F")
    case True
    with Cons.IH [OF s] show ?thesis by (simp add: e)
  next
    case False
    with ge have "filter (\<lambda>(et, po). et < F) es = []"
      by (auto simp: filter_empty_conv)
    moreover from False ge have "filter (\<lambda>(et, po). et \<le> F) es = filter (\<lambda>(et, po). et = F) es"
      by (intro filter_cong) auto
    ultimately show ?thesis using False by (auto simp: e)
  qed
qed

lemma evaluate_step2_events:
  assumes "evaluate_step2 h g t = Some h'" "gtype (h g) \<noteq> Inpt"
  shows "\<exists>v. pending_output_step2 (gtype (h g)) (map (\<lambda>i. output (h i)) (inputs (h g))) = Some v
           \<and> scheduled_events (h' g)
               = heappush_event (filter (\<lambda>(et, po). et \<noteq> t + delay (h g)) (scheduled_events (h g)))
                   (t + delay (h g), v)
           \<and> output (h' g) = output (h g)"
  using assms by (auto simp: evaluate_step2_def Let_def split: option.splits)

text \<open>
  Claim C8, amended: scheduling a gate removes any pending event of the gate with the
  same fire-time before it pushes the new one. So when a gate is scheduled twice for
  the same fire-time with no commit in between (the other gates' outputs may have
  changed), exactly one event for that fire-time is pending after each scheduling,
  the second one carrying the later value, and \<open>update_output\<close> at that time commits
  the later value. In general \<open>update_output\<close> sets the output to the value of the
  pending event with the greatest fire-time at or before the current time, and leaves
  it unchanged when there is none.
\<close>

theorem C8_coalesced_commit:
  assumes srt: "sorted (map fst (scheduled_events (h g)))"
    and ni: "gtype (h g) \<noteq> Inpt"
    and e1: "evaluate_step2 h g t = Some h1"
    and same: "scheduled_events (h1' g) = scheduled_events (h1 g)" "delay (h1' g) = delay (h g)"
      "gtype (h1' g) = gtype (h g)"
    and e2: "evaluate_step2 h1' g t = Some h2"
  shows "\<exists>v1 v2.
           pending_output_step2 (gtype (h g)) (map (\<lambda>i. output (h i)) (inputs (h g))) = Some v1
         \<and> pending_output_step2 (gtype (h1' g)) (map (\<lambda>i. output (h1' i)) (inputs (h1' g))) = Some v2
         \<and> filter (\<lambda>(et, po). et = t + delay (h g)) (scheduled_events (h1 g)) = [(t + delay (h g), v1)]
         \<and> filter (\<lambda>(et, po). et = t + delay (h g)) (scheduled_events (h2 g)) = [(t + delay (h g), v2)]
         \<and> sorted (map fst (scheduled_events (h2 g)))
         \<and> output (update_output h2 g (t + delay (h g)) g) = v2
         \<and> (\<forall>T. output (update_output h2 g T g)
                  = (case filter (\<lambda>(et, po). et \<le> T) (scheduled_events (h2 g)) of
                       [] \<Rightarrow> output (h2 g)
                     | xs \<Rightarrow> snd (last xs)))"
proof -
  let ?F = "t + delay (h g)"
  from evaluate_step2_events [OF e1 ni] obtain v1 where
    v1: "pending_output_step2 (gtype (h g)) (map (\<lambda>i. output (h i)) (inputs (h g))) = Some v1" and
    ev1: "scheduled_events (h1 g)
            = heappush_event (filter (\<lambda>(et, po). et \<noteq> ?F) (scheduled_events (h g))) (?F, v1)"
    by blast
  from ni same have ni': "gtype (h1' g) \<noteq> Inpt" by simp
  from evaluate_step2_events [OF e2 ni'] same obtain v2 where
    v2: "pending_output_step2 (gtype (h1' g)) (map (\<lambda>i. output (h1' i)) (inputs (h1' g))) = Some v2" and
    ev2: "scheduled_events (h2 g)
            = heappush_event (filter (\<lambda>(et, po). et \<noteq> ?F) (scheduled_events (h1 g))) (?F, v2)"
    by auto
  have s1: "sorted (map fst (scheduled_events (h1 g)))"
    unfolding ev1 using srt by (rule sorted_heappush_event)
  have s2: "sorted (map fst (scheduled_events (h2 g)))"
    unfolding ev2 using s1 by (rule sorted_heappush_event)
  have f1: "filter (\<lambda>(et, po). et = ?F) (scheduled_events (h1 g)) = [(?F, v1)]"
    unfolding ev1 by (rule filter_heappush_event)
  have f2: "filter (\<lambda>(et, po). et = ?F) (scheduled_events (h2 g)) = [(?F, v2)]"
    unfolding ev2 by (rule filter_heappush_event)
  have commit: "output (update_output h2 g T g)
                  = (case filter (\<lambda>(et, po). et \<le> T) (scheduled_events (h2 g)) of
                       [] \<Rightarrow> output (h2 g)
                     | xs \<Rightarrow> snd (last xs))" for T
    by (simp add: update_output_def update_output_loop_char [OF s2])
  have "filter (\<lambda>(et, po). et \<le> ?F) (scheduled_events (h2 g))
          = filter (\<lambda>(et, po). et < ?F) (scheduled_events (h2 g)) @ [(?F, v2)]"
    using filter_le_split [OF s2, of ?F] by (simp add: f2)
  then have "filter (\<lambda>(et, po). et \<le> ?F) (scheduled_events (h2 g)) \<noteq> []"
    and "snd (last (filter (\<lambda>(et, po). et \<le> ?F) (scheduled_events (h2 g)))) = v2"
    by simp_all
  then have "output (update_output h2 g ?F g) = v2"
    unfolding commit by (cases "filter (\<lambda>(et, po). et \<le> ?F) (scheduled_events (h2 g))") auto
  with v1 v2 f1 f2 s2 commit show ?thesis by blast
qed


lemmas sim_eval = run_simulation_step2_def simulation_init_def gate_values_def Gate_init_def
  empty_store_def set_output_def evaluate_step2_def pending_output_step2_def heappush_event_def
  heappush_timing_def update_output_def process_event_def log_outputs_def Let_def
  gate_evaluate_step1_def evaluate_step1_def simulate_vector_step1_def

theorem C8_coalesced_commit_witness:
  "sorted (map fst (scheduled_events (set_output (heap and_gate_circuit) 0 V1 2)))
   \<and> gtype (set_output (heap and_gate_circuit) 0 V1 2) \<noteq> Inpt
   \<and> evaluate_step2 (set_output (heap and_gate_circuit) 0 V1) 2 0 = Some first_scheduling
   \<and> evaluate_step2 (set_output first_scheduling 1 V1) 2 0 = Some second_scheduling
   \<and> scheduled_events (first_scheduling 2) = [(0, VU)]
   \<and> scheduled_events (second_scheduling 2) = [(0, V1)]
   \<and> output (update_output second_scheduling 2 0 2) = V1"
proof -
  let ?h = "set_output (heap and_gate_circuit) 0 V1"
  have a: "sorted (map fst (scheduled_events (?h 2)))" "gtype (?h 2) \<noteq> Inpt"
    by (simp_all add: and_gate_circuit_def sim_eval)
  have e1: "evaluate_step2 ?h 2 0 = Some first_scheduling"
    by (simp add: first_scheduling_def and_gate_circuit_def sim_eval)
  have e2: "evaluate_step2 (set_output first_scheduling 1 V1) 2 0 = Some second_scheduling"
    by (simp add: second_scheduling_def first_scheduling_def and_gate_circuit_def sim_eval)
  have same: "scheduled_events (set_output first_scheduling 1 V1 2) = scheduled_events (first_scheduling 2)"
    "delay (set_output first_scheduling 1 V1 2) = delay (?h 2)"
    "gtype (set_output first_scheduling 1 V1 2) = gtype (?h 2)"
    by (simp_all add: first_scheduling_def and_gate_circuit_def sim_eval)
  have p: "pending_output_step2 (gtype (set_output first_scheduling 1 V1 2))
             (map (\<lambda>i. output (set_output first_scheduling 1 V1 i))
                (inputs (set_output first_scheduling 1 V1 2))) = Some V1"
    by (simp add: first_scheduling_def and_gate_circuit_def sim_eval)
  have ev: "scheduled_events (first_scheduling 2) = [(0, VU)]"
    "scheduled_events (second_scheduling 2) = [(0, V1)]"
    by (simp_all add: second_scheduling_def first_scheduling_def and_gate_circuit_def sim_eval)
  have d: "delay (?h 2) = 0" by (simp add: and_gate_circuit_def sim_eval)
  from C8_coalesced_commit [OF a e1 same e2] p d
  have "output (update_output second_scheduling 2 0 2) = V1" by auto
  with a e1 e2 ev show ?thesis by simp
qed

text \<open>
  Claim C8, as stated, on \<open>hazard_circuit\<close>, settled at \<open>a = 0\<close> (so \<open>n = 1\<close>,
  \<open>g = 0\<close>), when the stimulus \<open>a = 1\<close> arrives at time 5. The stimulus phase
  schedules \<open>n\<close> and \<open>g\<close> for fire-time 5 (\<open>g\<close> with the value 1, computed from the old
  \<open>n\<close>). The event phase pops \<open>g\<close> first (address 2 before 5) and commits 1; it
  then pops \<open>n\<close>, commits 0 and schedules \<open>g\<close> again for fire-time 5, with the value
  0; it pops \<open>g\<close> again and commits 0. The gate \<open>g\<close> was scheduled twice with the
  fire-time 5 and committed two transitions at that time.
\<close>

theorem C8_zero_delay_gate_commits_twice:
  "\<exists>S1 S2 S3 S4.
     map (\<lambda>g. output (hazard_settled g)) [0, 1, 2] = [V0, V1, V0]
   \<and> apply_test_vector [0, 1, 2] [(1, V1)] 5 hazard_settled [] (gates hazard_circuit) = Some S1
   \<and> snd S1 = [(5, 2, 2), (5, 5, 1)] \<and> scheduled_events (fst S1 2) = [(5, V1)]
   \<and> process_event [0, 1, 2] 5 (fst S1) 2 [(5, 5, 1)] = Some S2
   \<and> snd S2 = [(5, 5, 1)] \<and> output (fst S2 2) = V1
   \<and> process_event [0, 1, 2] 5 (fst S2) 1 [] = Some S3
   \<and> snd S3 = [(5, 2, 2)] \<and> scheduled_events (fst S3 2) = [(5, V0)]
   \<and> process_event [0, 1, 2] 5 (fst S3) 2 [] = Some S4
   \<and> snd S4 = [] \<and> output (fst S4 2) = V0"
proof -
  define S1 where "S1 = the (apply_test_vector [0, 1, 2] [(1, V1)] 5 hazard_settled [] (gates hazard_circuit))"
  define S2 where "S2 = the (process_event [0, 1, 2] 5 (fst S1) 2 [(5, 5, 1)])"
  define S3 where "S3 = the (process_event [0, 1, 2] 5 (fst S2) 1 [])"
  define S4 where "S4 = the (process_event [0, 1, 2] 5 (fst S3) 2 [])"
  note ev = hazard_settled_def hazard_circuit_def sim_eval eval_nat_numeral
  have "map (\<lambda>g. output (hazard_settled g)) [0, 1, 2] = [V0, V1, V0]"
    by (simp add: ev)
  moreover have "apply_test_vector [0, 1, 2] [(1, V1)] 5 hazard_settled [] (gates hazard_circuit) = Some S1"
    "snd S1 = [(5, 2, 2), (5, 5, 1)]" "scheduled_events (fst S1 2) = [(5, V1)]"
    by (simp_all add: S1_def ev)
  moreover have "process_event [0, 1, 2] 5 (fst S1) 2 [(5, 5, 1)] = Some S2"
    "snd S2 = [(5, 5, 1)]" "output (fst S2 2) = V1"
    by (simp_all add: S2_def S1_def ev)
  moreover have "process_event [0, 1, 2] 5 (fst S2) 1 [] = Some S3"
    "snd S3 = [(5, 2, 2)]" "scheduled_events (fst S3 2) = [(5, V0)]"
    by (simp_all add: S3_def S2_def S1_def ev)
  moreover have "process_event [0, 1, 2] 5 (fst S3) 2 [] = Some S4"
    "snd S4 = []" "output (fst S4 2) = V0"
    by (simp_all add: S4_def S3_def S2_def S1_def ev)
  ultimately show ?thesis by (intro exI conjI)
qed

subsection \<open>The two simulators on zero-delay netlists\<close>


subsubsection \<open>The two evaluators on values without Z\<close>

lemma sum_int_of_vals_known:
  "list_all known_or_U vs \<Longrightarrow> VU \<notin> set vs \<Longrightarrow> \<exists>s. sum_int_of_vals vs = Some s"
  by (induction vs) (auto simp: known_or_U_def int_of_val_def)

lemma pending_known:
  assumes "list_all known_or_U vs"
  shows "\<exists>v. pending_output_step2 t vs = Some v \<and> known_or_U v"
proof -
  have z: "VZ \<notin> set vs" using assms by (auto simp: list_all_iff known_or_U_def)
  have hd: "vs \<noteq> [] \<Longrightarrow> known_or_U (hd vs)" using assms by (cases vs) auto
  show ?thesis
  proof (cases "VU \<in> set vs")
    case True
    with z hd show ?thesis
      by (cases t; cases vs)
        (auto simp: pending_output_step2_def known_or_U_def Let_def)
  next
    case False
    from sum_int_of_vals_known [OF assms False] obtain s where "sum_int_of_vals vs = Some s" ..
    with False z hd show ?thesis
      by (cases t; cases vs)
        (auto simp: pending_output_step2_def known_or_U_def Let_def str_of_bit_def)
  qed
qed

lemma evaluators_agree:
  assumes "list_all known_or_U vs" "t \<noteq> Inpt"
  shows "evaluate_step1 t vs old = pending_output_step2 t vs"
proof -
  have z: "VZ \<notin> set vs" using assms by (auto simp: list_all_iff known_or_U_def)
  with assms(2) show ?thesis
    by (cases t; cases vs)
      (auto simp: evaluate_step1_def pending_output_step2_def Let_def)
qed

lemma pending_all_U:
  assumes "vs \<noteq> []" "list_all (\<lambda>v. v = VU) vs"
  shows "pending_output_step2 t vs = Some VU"
proof -
  from assms have u: "VU \<in> set vs" "V0 \<notin> set vs" "V1 \<notin> set vs" "hd vs = VU"
    by (cases vs; auto simp: list_all_iff)+
  then show ?thesis using assms(1)
    by (cases t; cases vs) (auto simp: pending_output_step2_def Let_def)
qed

subsubsection \<open>The weight of an event\<close>

lemma event_weight_prefix:
  "\<forall>x \<in> set xs. g \<notin> set (inputs (h x)) \<Longrightarrow> event_weight h (xs @ ys) g = event_weight h ys g"
  by (induction xs) auto

lemma event_weight_unfold:
  "topo_from h pre cs \<Longrightarrow> topo_from h [] pre \<Longrightarrow>
   event_weight h cs g
     = 1 + sum_list (map (event_weight h (pre @ cs))
                       (filter (\<lambda>c. g \<in> set (inputs (h c))) cs))"
proof (induction cs arbitrary: pre)
  case Nil
  then show ?case by simp
next
  case (Cons c cs)
  from Cons.prems have t1: "topo_from h (pre @ [c]) cs" and inp: "set (inputs (h c)) \<subseteq> set pre"
    and cn: "c \<notin> set pre" by auto
  from Cons.prems have t2: "topo_from h [] (pre @ [c])"
    by (simp add: topo_from_append)
  note ih = Cons.IH [OF t1 t2]
  have nopre: "\<forall>x \<in> set (pre @ [c]). c \<notin> set (inputs (h x))"
  proof
    fix x assume x: "x \<in> set (pre @ [c])"
    show "c \<notin> set (inputs (h x))"
    proof (cases "x = c")
      case True
      with inp cn show ?thesis by auto
    next
      case False
      with x have "x \<in> set pre" by simp
      then obtain xs ys where p: "pre = xs @ x # ys" by (meson split_list)
      from Cons.prems(2) have "set (inputs (h x)) \<subseteq> set xs"
        using topo_from_inputs [of h "[]" xs x ys] by (simp add: p)
      with cn p show ?thesis by auto
    qed
  qed
  have "event_weight h ((pre @ [c]) @ cs) c = event_weight h cs c"
    by (rule event_weight_prefix [OF nopre])
  then have w: "event_weight h (pre @ c # cs) c = event_weight h cs c" by simp
  show ?case using ih w by simp
qed

lemma event_weight_consumers:
  assumes "topological h vals"
  shows "event_weight h vals g
     = 1 + sum_list (map (event_weight h vals) (filter (\<lambda>c. g \<in> set (inputs (h c))) vals))"
  using event_weight_unfold [of h "[]" vals g] assms by (simp add: topological_def)







lemma sum_list_insort_key:
  "sum_list (map f (insort_key k x xs)) = (f x :: nat) + sum_list (map f xs)"
  by (induction xs) auto

lemma queue_weight_push:
  "queue_weight h vals (heappush_timing q (t, a, g)) = event_weight h vals g + queue_weight h vals q"
  by (simp add: queue_weight_def heappush_timing_def sum_list_insort_key)

lemma set_heappush_timing: "set (heappush_timing q e) = insert e (set q)"
  by (simp add: heappush_timing_def set_insort_key)

lemma pending_value_simps:
  "scheduled_events (h g) = [] \<Longrightarrow> pending_value h g = output (h g)"
  "scheduled_events (h g) = [(t, v)] \<Longrightarrow> pending_value h g = v"
  by (simp_all add: pending_value_def)

lemma inputs_known:
  assumes st: "static_netlist h0 vals" and inv: "sim_inv h0 vals T h q stale" and f: "f \<in> set vals"
  shows "list_all known_or_U (map (\<lambda>i. output (h i)) (inputs (h f)))"
proof -
  from inv have ss: "same_structure h0 h" by (simp add: sim_inv_def)
  then have "inputs (h f) = inputs (h0 f)" by (simp add: same_structure_def)
  moreover from st f have "set (inputs (h0 f)) \<subseteq> set vals"
    by (auto simp: static_netlist_def dest: topo_inputs_in_vals)
  moreover from inv have "\<forall>g \<in> set vals. known_or_U (output (h g))"
    by (simp add: sim_inv_def gate_inv_def)
  ultimately show ?thesis by (auto simp: list_all_iff)
qed

lemma evaluate_step2_inv:
  assumes st: "static_netlist h0 vals" and inv: "sim_inv h0 vals T h q stale"
    and f: "f \<in> set vals" and ni: "gtype (h0 f) \<noteq> Inpt"
  shows "\<exists>h'. evaluate_step2 h f T = Some h'
           \<and> sim_inv h0 vals T h' (heappush_timing q (T + delay (h' f), address (h' f), f)) (stale - {f})
           \<and> (\<forall>x. output (h' x) = output (h x))"
proof -
  from inv have ss: "same_structure h0 h" by (simp add: sim_inv_def)
  then have t: "gtype (h f) \<noteq> Inpt" and d: "delay (h f) = 0"
    using ni st f by (simp_all add: same_structure_def static_netlist_def)
  from pending_known [OF inputs_known [OF st inv f]] obtain v where
    v: "pending_output_step2 (gtype (h f)) (map (\<lambda>i. output (h i)) (inputs (h f))) = Some v"
    and kv: "known_or_U v" by blast
  from inv f have gi: "gate_inv T h q stale f" by (simp add: sim_inv_def)
  then have ev: "filter (\<lambda>(et, po). et \<noteq> T) (scheduled_events (h f)) = []"
    by (auto simp: gate_inv_def)
  define h' where "h' = h(f := (h f)\<lparr>scheduled_events := [(T, v)], last_input_event_time := T\<rparr>)"
  have e: "evaluate_step2 h f T = Some h'"
    using t d v ev by (simp add: evaluate_step2_def h'_def heappush_event_def)
  have out: "output (h' x) = output (h x)" for x by (simp add: h'_def)
  have fld: "gtype (h' x) = gtype (h x)" "inputs (h' x) = inputs (h x)" "delay (h' x) = delay (h x)" for x
    by (simp_all add: h'_def)
  have other: "x \<noteq> f \<Longrightarrow> scheduled_events (h' x) = scheduled_events (h x)" for x
    by (simp add: h'_def)
  have self: "scheduled_events (h' f) = [(T, v)]" by (simp add: h'_def)
  let ?q = "heappush_timing q (T + delay (h' f), address (h' f), f)"
  have ss': "same_structure h0 h'" using ss by (simp add: same_structure_def fld)
  have pv: "pending_value h' x = (if x = f then v else pending_value h x)" for x
    by (simp add: pending_value_def h'_def split: list.splits)
  have g': "gate_inv T h' ?q (stale - {f}) x" if x: "x \<in> set vals" for x
  proof (cases "x = f")
    case True
    with gi v kv t show ?thesis
      by (simp add: gate_inv_def out fld self pv set_heappush_timing)
  next
    case False
    from inv x have "gate_inv T h q stale x" by (simp add: sim_inv_def)
    with False show ?thesis
      by (auto simp: gate_inv_def out fld other pv set_heappush_timing)
  qed
  have q': "\<forall>e \<in> set ?q. fst e = T \<and> snd (snd e) \<in> set vals"
    using inv f d by (auto simp: sim_inv_def set_heappush_timing fld)
  from e ss' g' q' out show ?thesis by (auto simp: sim_inv_def)
qed


lemma schedule_fanouts_inv:
  assumes st: "static_netlist h0 vals"
  shows "sim_inv h0 vals T h q stale \<Longrightarrow> set fs \<subseteq> set vals \<Longrightarrow>
         \<exists>h' q'. schedule_fanouts h q g T fs = Some (h', q')
           \<and> sim_inv h0 vals T h' q' (stale - {f \<in> set fs. g \<in> set (inputs (h0 f))})
           \<and> queue_weight h0 vals q'
               = queue_weight h0 vals q
                 + sum_list (map (event_weight h0 vals) (filter (\<lambda>c. g \<in> set (inputs (h0 c))) fs))
           \<and> (\<forall>x. output (h' x) = output (h x))"
proof (induction fs arbitrary: h q stale)
  case Nil
  then show ?case by simp
next
  case (Cons f fs)
  from Cons.prems have f: "f \<in> set vals" and fs: "set fs \<subseteq> set vals" by simp_all
  from Cons.prems(1) have inp: "inputs (h f) = inputs (h0 f)"
    by (simp add: sim_inv_def same_structure_def)
  show ?case
  proof (cases "g \<in> set (inputs (h0 f))")
    case True
    with st f have ni: "gtype (h0 f) \<noteq> Inpt" by (auto simp: static_netlist_def)
    from evaluate_step2_inv [OF st Cons.prems(1) f ni] obtain h1 where
      e: "evaluate_step2 h f T = Some h1" and
      i1: "sim_inv h0 vals T h1 (heappush_timing q (T + delay (h1 f), address (h1 f), f)) (stale - {f})" and
      o1: "\<forall>x. output (h1 x) = output (h x)" by blast
    from Cons.IH [OF i1 fs] obtain h' q' where
      r: "schedule_fanouts h1 (heappush_timing q (T + delay (h1 f), address (h1 f), f)) g T fs = Some (h', q')" and
      i2: "sim_inv h0 vals T h' q' (stale - {f} - {f \<in> set fs. g \<in> set (inputs (h0 f))})" and
      w: "queue_weight h0 vals q'
            = queue_weight h0 vals (heappush_timing q (T + delay (h1 f), address (h1 f), f))
              + sum_list (map (event_weight h0 vals) (filter (\<lambda>c. g \<in> set (inputs (h0 c))) fs))" and
      o2: "\<forall>x. output (h' x) = output (h1 x)" by blast
    have s: "stale - {f} - {f \<in> set fs. g \<in> set (inputs (h0 f))}
               = stale - {x \<in> set (f # fs). g \<in> set (inputs (h0 x))}"
      using True by auto
    from True inp e r i2 w o1 o2 show ?thesis
      by (simp add: s queue_weight_push)
  next
    case False
    from Cons.IH [OF Cons.prems(1) fs] obtain h' q' where
      r: "schedule_fanouts h q g T fs = Some (h', q')" and
      i2: "sim_inv h0 vals T h' q' (stale - {f \<in> set fs. g \<in> set (inputs (h0 f))})" and
      w: "queue_weight h0 vals q'
            = queue_weight h0 vals q
              + sum_list (map (event_weight h0 vals) (filter (\<lambda>c. g \<in> set (inputs (h0 c))) fs))" and
      o2: "\<forall>x. output (h' x) = output (h x)" by blast
    have s: "stale - {f \<in> set fs. g \<in> set (inputs (h0 f))}
               = stale - {x \<in> set (f # fs). g \<in> set (inputs (h0 x))}"
      using False by auto
    from False inp r i2 w o2 show ?thesis
      by (simp add: s)
  qed
qed

lemma sim_inv_stale_mono:
  "sim_inv h0 vals T h q stale \<Longrightarrow> stale \<subseteq> stale' \<Longrightarrow> sim_inv h0 vals T h q stale'"
  by (auto simp: sim_inv_def gate_inv_def)


lemma update_output_inv:
  assumes st: "static_netlist h0 vals" and inv: "sim_inv h0 vals T h ((t, a, g) # q) {}"
  shows "sim_inv h0 vals T (update_output h g T) q {x \<in> set vals. g \<in> set (inputs (h0 x))}"
    and "\<forall>x. gtype (h0 x) = Inpt \<longrightarrow> output (update_output h g T x) = output (h x)"
proof -
  from inv have g: "g \<in> set vals" and ss: "same_structure h0 h"
    and qs: "\<forall>e \<in> set q. fst e = T \<and> snd (snd e) \<in> set vals"
    by (auto simp: sim_inv_def)
  from inv g have gi: "gate_inv T h ((t, a, g) # q) {} g" by (auto simp: sim_inv_def)
  define h' where "h' = h(g := (h g)\<lparr>scheduled_events := [], output := pending_value h g\<rparr>)"
  have u: "update_output h g T = h'"
    using gi by (auto simp: gate_inv_def update_output_def h'_def pending_value_def)
  have fld: "gtype (h' x) = gtype (h x)" "inputs (h' x) = inputs (h x)" "delay (h' x) = delay (h x)" for x
    by (simp_all add: h'_def)
  have ss': "same_structure h0 h'" using ss by (simp add: same_structure_def fld)
  have nself: "g \<notin> set (inputs (h0 g))"
    using st g by (auto simp: static_netlist_def dest: topo_not_self)
  have inp: "inputs (h x) = inputs (h0 x)" "gtype (h x) = gtype (h0 x)" for x
    using ss by (simp_all add: same_structure_def)
  have same_in: "g \<notin> set (inputs (h0 x)) \<Longrightarrow>
      map (\<lambda>i. output (h' i)) (inputs (h0 x)) = map (\<lambda>i. output (h i)) (inputs (h0 x))" for x
    by (auto simp: h'_def)
  have kp: "known_or_U (pending_value h g)"
    using gi by (auto simp: gate_inv_def pending_value_def)
  have g': "gate_inv T h' q {x \<in> set vals. g \<in> set (inputs (h0 x))} x" if x: "x \<in> set vals" for x
  proof (cases "x = g")
    case True
    have pv: "pending_value h' g = pending_value h g"
      by (simp add: pending_value_def h'_def split: list.splits)
    have out: "output (h' g) = pending_value h g" "scheduled_events (h' g) = []"
      by (simp_all add: h'_def)
    from gi have "gtype (h0 g) \<noteq> Inpt \<longrightarrow>
        pending_output_step2 (gtype (h0 g)) (map (\<lambda>i. output (h i)) (inputs (h0 g)))
          = Some (pending_value h g)"
      by (simp add: gate_inv_def inp)
    with True kp nself show ?thesis
      by (simp add: gate_inv_def fld inp out pv same_in)
  next
    case False
    from inv x have gx: "gate_inv T h ((t, a, g) # q) {} x" by (auto simp: sim_inv_def)
    have e: "h' x = h x" using False by (simp add: h'_def)
    have pv: "pending_value h' x = pending_value h x"
      by (simp add: pending_value_def e split: list.splits)
    from gx False x show ?thesis
      by (auto simp: gate_inv_def e pv inp same_in)
  qed
  from ss' g' qs show "sim_inv h0 vals T (update_output h g T) q {x \<in> set vals. g \<in> set (inputs (h0 x))}"
    by (simp add: sim_inv_def u)
  show "\<forall>x. gtype (h0 x) = Inpt \<longrightarrow> output (update_output h g T x) = output (h x)"
  proof (intro allI impI)
    fix x assume i: "gtype (h0 x) = Inpt"
    show "output (update_output h g T x) = output (h x)"
    proof (cases "x = g")
      case True
      with gi i have "scheduled_events (h g) = []" by (simp add: gate_inv_def inp)
      with True show ?thesis by (simp add: u h'_def pending_value_def)
    next
      case False
      then show ?thesis by (simp add: u h'_def)
    qed
  qed
qed

lemma process_event_inv:
  assumes st: "static_netlist h0 vals" and inv: "sim_inv h0 vals T h ((t, a, g) # q) {}"
  shows "\<exists>h' q'. process_event vals T h g q = Some (h', q')
           \<and> sim_inv h0 vals T h' q' {}
           \<and> Suc (queue_weight h0 vals q') = queue_weight h0 vals ((t, a, g) # q)
           \<and> (\<forall>x. gtype (h0 x) = Inpt \<longrightarrow> output (h' x) = output (h x))"
proof -
  note u = update_output_inv [OF st inv]
  from schedule_fanouts_inv [OF st u(1) subset_refl, of g] obtain h' q' where
    r: "schedule_fanouts (update_output h g T) q g T vals = Some (h', q')" and
    i: "sim_inv h0 vals T h' q'
          ({x \<in> set vals. g \<in> set (inputs (h0 x))} - {f \<in> set vals. g \<in> set (inputs (h0 f))})" and
    w: "queue_weight h0 vals q'
          = queue_weight h0 vals q
            + sum_list (map (event_weight h0 vals) (filter (\<lambda>c. g \<in> set (inputs (h0 c))) vals))" and
    o: "\<forall>x. output (h' x) = output (update_output h g T x)" by blast
  from i have i': "sim_inv h0 vals T h' q' {}" by simp
  from st have "event_weight h0 vals g
     = 1 + sum_list (map (event_weight h0 vals) (filter (\<lambda>c. g \<in> set (inputs (h0 c))) vals))"
    by (intro event_weight_consumers) (simp add: static_netlist_def)
  with w have "Suc (queue_weight h0 vals q') = queue_weight h0 vals ((t, a, g) # q)"
    by (simp add: queue_weight_def)
  with r i' o u(2) show ?thesis by (simp add: process_event_def)
qed

lemma process_events_inv:
  assumes st: "static_netlist h0 vals"
  shows "sim_inv h0 vals T h q {} \<Longrightarrow> queue_weight h0 vals q < n \<Longrightarrow>
         \<exists>h'. process_events n vals T h q = Some (h', [])
           \<and> sim_inv h0 vals T h' [] {}
           \<and> (\<forall>x. gtype (h0 x) = Inpt \<longrightarrow> output (h' x) = output (h x))"
proof (induction n arbitrary: h q)
  case 0
  then show ?case by simp
next
  case (Suc n)
  show ?case
  proof (cases q)
    case Nil
    with Suc.prems show ?thesis by simp
  next
    case (Cons e q1)
    obtain t a g where e: "e = (t, a, g)" by (cases e)
    from Suc.prems(1) have tT: "t = T" by (simp add: sim_inv_def Cons e)
    from process_event_inv [OF st Suc.prems(1) [unfolded Cons e]] obtain h1 q2 where
      p: "process_event vals T h g q1 = Some (h1, q2)" and
      i: "sim_inv h0 vals T h1 q2 {}" and
      w: "Suc (queue_weight h0 vals q2) = queue_weight h0 vals ((t, a, g) # q1)" and
      o: "\<forall>x. gtype (h0 x) = Inpt \<longrightarrow> output (h1 x) = output (h x)" by blast
    from w Suc.prems(2) have "queue_weight h0 vals q2 < n" by (simp add: Cons e)
    from Suc.IH [OF i this] obtain h' where
      "process_events n vals T h1 q2 = Some (h', [])" "sim_inv h0 vals T h' [] {}"
      "\<forall>x. gtype (h0 x) = Inpt \<longrightarrow> output (h' x) = output (h1 x)" by blast
    with p o tT show ?thesis by (simp add: Cons e)
  qed
qed



lemma set_output_inpt_inv:
  assumes st: "static_netlist h0 vals" and inv: "sim_inv h0 vals T h q {}"
    and g: "g \<in> set vals" and i: "gtype (h0 g) = Inpt" and k: "known_or_U v"
  shows "sim_inv h0 vals T (set_output h g v) q {x \<in> set vals. g \<in> set (inputs (h0 x))}"
proof -
  let ?h = "set_output h g v"
  from inv have ss: "same_structure h0 h"
    and qs: "\<forall>e \<in> set q. fst e = T \<and> snd (snd e) \<in> set vals"
    by (auto simp: sim_inv_def)
  have fld: "gtype (?h x) = gtype (h x)" "inputs (?h x) = inputs (h x)" "delay (?h x) = delay (h x)"
    "scheduled_events (?h x) = scheduled_events (h x)" for x
    by (simp_all add: set_output_def)
  have ss': "same_structure h0 ?h" using ss by (simp add: same_structure_def fld)
  have inp: "inputs (h x) = inputs (h0 x)" "gtype (h x) = gtype (h0 x)" for x
    using ss by (simp_all add: same_structure_def)
  have same_in: "g \<notin> set (inputs (h0 x)) \<Longrightarrow>
      map (\<lambda>i. output (?h i)) (inputs (h0 x)) = map (\<lambda>i. output (h i)) (inputs (h0 x))" for x
    by (auto simp: set_output_def)
  have g': "gate_inv T ?h q {x \<in> set vals. g \<in> set (inputs (h0 x))} x" if x: "x \<in> set vals" for x
  proof (cases "x = g")
    case True
    from inv g have "gate_inv T h q {} g" by (auto simp: sim_inv_def)
    with True i k show ?thesis
      by (auto simp: gate_inv_def fld inp set_output_def)
  next
    case False
    from inv x have gx: "gate_inv T h q {} x" by (auto simp: sim_inv_def)
    have o: "output (?h x) = output (h x)" using False by (simp add: set_output_def)
    have pv: "pending_value ?h x = pending_value h x"
      by (simp add: pending_value_def fld o split: list.splits)
    from gx x show ?thesis
      by (auto simp: gate_inv_def fld o pv inp same_in)
  qed
  from ss' g' qs show ?thesis by (simp add: sim_inv_def)
qed

lemma apply_test_vector_inv:
  assumes st: "static_netlist h0 vals" and vz: "vector_without_Z vec"
  shows "sim_inv h0 vals T h q {} \<Longrightarrow> set (map snd items) \<subseteq> set vals
         \<Longrightarrow> distinct (map snd items)
         \<Longrightarrow> (\<forall>x. output (h x) = output (hs x)) \<Longrightarrow> (\<forall>x. gtype (hs x) = gtype (h0 x))
         \<Longrightarrow> (\<forall>g \<in> set (map snd items). gtype (h0 g) = Inpt \<longrightarrow> output (h g) = VU)
         \<Longrightarrow> \<exists>h' q'. apply_test_vector vals vec T h q items = Some (h', q')
               \<and> sim_inv h0 vals T h' q' {}
               \<and> (\<forall>x. output (h' x) = output (init_inputs_step1 hs vec items x))"
proof (induction items arbitrary: h q hs)
  case Nil
  then show ?case by simp
next
  case (Cons item items)
  obtain a g where item: "item = (a, g)" by (cases item)
  from Cons.prems have g: "g \<in> set vals" and sub: "set (map snd items) \<subseteq> set vals"
    and dist: "distinct (map snd items)" and gn: "g \<notin> set (map snd items)"
    by (auto simp: item)
  from Cons.prems(1) have th: "gtype (h g) = gtype (h0 g)"
    by (simp add: sim_inv_def same_structure_def)
  from Cons.prems(5) have ths: "gtype (hs g) = gtype (h0 g)" by simp
  let ?v1 = "case map_of vec a of None \<Rightarrow> VU | Some v \<Rightarrow> v"
  let ?hs1 = "if gtype (hs g) = Inpt then set_output hs g ?v1 else hs"
  have ts1: "\<forall>x. gtype (?hs1 x) = gtype (h0 x)"
    using Cons.prems(5) by (simp add: set_output_def)
  have rest_fresh: "\<forall>g' \<in> set (map snd items). gtype (h0 g') = Inpt \<longrightarrow> output (h' g') = VU"
    if a: "\<forall>x. x \<noteq> g \<longrightarrow> output (h' x) = output (h x)" for h'
  proof (intro ballI impI)
    fix g' assume m: "g' \<in> set (map snd items)" and t: "gtype (h0 g') = Inpt"
    from m gn have "g' \<noteq> g" by auto
    with a have "output (h' g') = output (h g')" by simp
    moreover from m have "g' \<in> set (map snd (item # items))" by simp
    with Cons.prems(6) t have "output (h g') = VU" by blast
    ultimately show "output (h' g') = VU" by simp
  qed
  show ?case
  proof (cases "\<exists>v. map_of vec a = Some v \<and> gtype (h0 g) = Inpt \<and> output (h g) \<noteq> v")
    case True
    then obtain v where v: "map_of vec a = Some v" and i: "gtype (h0 g) = Inpt"
      and ne: "output (h g) \<noteq> v" by blast
    from v have "(a, v) \<in> set vec" by (rule map_of_SomeD)
    with vz have k: "known_or_U v" by (auto simp: vector_without_Z_def list_all_iff)
    note s = set_output_inpt_inv [OF st Cons.prems(1) g i k]
    from schedule_fanouts_inv [OF st s subset_refl, of g] obtain h1 q1 where
      r: "schedule_fanouts (set_output h g v) q g T vals = Some (h1, q1)" and
      i1: "sim_inv h0 vals T h1 q1
             ({x \<in> set vals. g \<in> set (inputs (h0 x))} - {f \<in> set vals. g \<in> set (inputs (h0 f))})" and
      o1: "\<forall>x. output (h1 x) = output (set_output h g v x)" by blast
    from i1 have i1': "sim_inv h0 vals T h1 q1 {}" by simp
    have eq: "\<forall>x. output (h1 x) = output (?hs1 x)"
      using o1 Cons.prems(4) ths i v by (simp add: set_output_def)
    have fr: "\<forall>g' \<in> set (map snd items). gtype (h0 g') = Inpt \<longrightarrow> output (h1 g') = VU"
      by (rule rest_fresh) (simp add: o1 set_output_def)
    from Cons.IH [OF i1' sub dist eq ts1 fr] v i ne th r show ?thesis
      by (simp add: item ths)
  next
    case False
    have eq: "\<forall>x. output (h x) = output (?hs1 x)"
    proof (cases "gtype (h0 g) = Inpt")
      case i: True
      show ?thesis
      proof (cases "map_of vec a")
        case None
        with Cons.prems(4,6) i ths show ?thesis by (auto simp: set_output_def item)
      next
        case (Some v)
        with False i have "output (h g) = v" by simp
        with Cons.prems(4) i ths Some show ?thesis by (auto simp: set_output_def)
      qed
    next
      case False
      with Cons.prems(4) ths show ?thesis by simp
    qed
    have fr: "\<forall>g' \<in> set (map snd items). gtype (h0 g') = Inpt \<longrightarrow> output (h g') = VU"
      by (rule rest_fresh) simp
    have step: "apply_test_vector vals vec T h q (item # items)
                  = apply_test_vector vals vec T h q items"
      using False th by (auto simp: item split: option.splits)
    from Cons.IH [OF Cons.prems(1) sub dist eq ts1 fr] show ?thesis
      by (simp only: step) (simp add: item)
  qed
qed



lemma fresh_static:
  "fresh_zero_delay c \<Longrightarrow> static_netlist (heap c) (gate_values c)"
  by (auto simp: fresh_zero_delay_def static_netlist_def list_all_iff)

lemma fresh_sim_inv:
  assumes f: "fresh_zero_delay c"
  shows "sim_inv (heap c) (gate_values c) T (heap c) [] {}"
proof -
  let ?h = "heap c" and ?vals = "gate_values c"
  note st = fresh_static [OF f]
  have fr: "\<forall>g \<in> set ?vals. output (?h g) = VU \<and> scheduled_events (?h g) = []
              \<and> ((gtype (?h g) = Inpt) = (inputs (?h g) = []))"
    using f by (auto simp: fresh_zero_delay_def list_all_iff)
  have "gate_inv T ?h [] {} g" if g: "g \<in> set ?vals" for g
  proof -
    from st g have "set (inputs (?h g)) \<subseteq> set ?vals"
      by (auto simp: static_netlist_def dest: topo_inputs_in_vals)
    with fr have u: "list_all (\<lambda>v. v = VU) (map (\<lambda>i. output (?h i)) (inputs (?h g)))"
      by (auto simp: list_all_iff)
    have "pending_output_step2 (gtype (?h g)) (map (\<lambda>i. output (?h i)) (inputs (?h g))) = Some VU"
      if "gtype (?h g) \<noteq> Inpt"
      using that fr g by (intro pending_all_U [OF _ u]) auto
    with fr g show ?thesis
      by (auto simp: gate_inv_def known_or_U_def pending_value_def)
  qed
  then show ?thesis by (simp add: sim_inv_def same_structure_def)
qed

lemma init_inputs_step1_fields:
  "gtype (init_inputs_step1 h vec items x) = gtype (h x)"
  "inputs (init_inputs_step1 h vec items x) = inputs (h x)"
  by (induction h vec items rule: init_inputs_step1.induct) (auto simp: set_output_def)

lemma propagate_step1_agrees:
  assumes st: "static_netlist h0 vals" and fin: "sim_inv h0 vals T hB [] {}"
  shows "vals = pre @ gs
         \<Longrightarrow> (\<forall>x. gtype (h x) = gtype (h0 x) \<and> inputs (h x) = inputs (h0 x))
         \<Longrightarrow> (\<forall>x \<in> set pre. output (h x) = output (hB x))
         \<Longrightarrow> (\<forall>x \<in> set gs. gtype (h0 x) = Inpt \<longrightarrow> output (h x) = output (hB x))
         \<Longrightarrow> \<exists>h'. propagate_step1 h gs = Some h' \<and> (\<forall>x \<in> set vals. output (h' x) = output (hB x))"
proof (induction gs arbitrary: h pre)
  case Nil
  then show ?case by simp
next
  case (Cons g gs)
  from Cons.prems(1) have g: "g \<in> set vals" by simp
  from st have topo: "topo_from h0 [] vals" by (simp add: static_netlist_def topological_def)
  from topo_from_inputs [OF topo [unfolded Cons.prems(1)]]
  have inp: "set (inputs (h0 g)) \<subseteq> set pre" by simp
  from topo_from_distinct [OF topo] Cons.prems(1) have d: "g \<notin> set pre" "g \<notin> set gs"
    by auto
  from fin have ssB: "same_structure h0 hB" by (simp add: sim_inv_def)
  from fin g have gi: "gate_inv T hB [] {} g" by (simp add: sim_inv_def)
  then have evB: "scheduled_events (hB g) = []" by (auto simp: gate_inv_def)
  have hf: "gtype (h g) = gtype (h0 g)" "inputs (h g) = inputs (h0 g)"
    using Cons.prems(2) by simp_all
  have "\<exists>v. gate_evaluate_step1 h g = Some (set_output h g v) \<and> v = output (hB g)"
  proof (cases "gtype (h0 g) = Inpt")
    case True
    with Cons.prems(4) have "output (h g) = output (hB g)" by simp
    with True hf show ?thesis
      by (simp add: gate_evaluate_step1_def evaluate_step1_def)
  next
    case False
    have vs: "map (\<lambda>i. output (h i)) (inputs (h0 g)) = map (\<lambda>i. output (hB i)) (inputs (h0 g))"
      using inp Cons.prems(3) by auto
    have k: "list_all known_or_U (map (\<lambda>i. output (hB i)) (inputs (h0 g)))"
      using inputs_known [OF st fin g] ssB by (simp add: same_structure_def)
    from gi False ssB evB have
      "pending_output_step2 (gtype (h0 g)) (map (\<lambda>i. output (hB i)) (inputs (h0 g)))
         = Some (output (hB g))"
      by (simp add: gate_inv_def same_structure_def pending_value_def)
    with evaluators_agree [OF k False] show ?thesis
      by (simp add: gate_evaluate_step1_def hf vs)
  qed
  then have e: "gate_evaluate_step1 h g = Some (set_output h g (output (hB g)))" by blast
  let ?h1 = "set_output h g (output (hB g))"
  have "\<exists>h'. propagate_step1 ?h1 gs = Some h' \<and> (\<forall>x \<in> set vals. output (h' x) = output (hB x))"
  proof (rule Cons.IH [of "pre @ [g]"])
    show "vals = (pre @ [g]) @ gs" using Cons.prems(1) by simp
    show "\<forall>x. gtype (?h1 x) = gtype (h0 x) \<and> inputs (?h1 x) = inputs (h0 x)"
      using Cons.prems(2) by (simp add: set_output_def)
    show "\<forall>x \<in> set (pre @ [g]). output (?h1 x) = output (hB x)"
      using Cons.prems(3) by (auto simp: set_output_def)
    show "\<forall>x \<in> set gs. gtype (h0 x) = Inpt \<longrightarrow> output (?h1 x) = output (hB x)"
      using Cons.prems(4) d by (auto simp: set_output_def)
  qed
  with e show ?case by simp
qed

text \<open>
  Claim C9, as stated, on \<open>and_gate_circuit\<close> (all delays zero) with the vector
  \<open>a = Z, b = 1\<close>: the zero-delay evaluator leaves the and gate at U, the event-driven
  simulator, whose queue is empty at the end, at Z.
\<close>

theorem C9_and_gate_with_Z:
  "map_option (\<lambda>c. output (heap c 2)) (run_simulation_step1 and_gate_circuit [(0, [(1, VZ), (2, V1)])])
     = Some VU
   \<and> map_option (\<lambda>s. (output (sim_heap s 2), timing_queue s))
        (run_simulation_step2 5 and_gate_circuit [(0, [(1, VZ), (2, V1)])])
     = Some (VZ, [])
   \<and> list_all (\<lambda>g. delay (heap and_gate_circuit g) = 0) (gate_values and_gate_circuit)"
  by (simp add: and_gate_circuit_def sim_eval eval_nat_numeral)

text \<open>
  Claim C9, amended: for every freshly parsed netlist in topological declaration order
  in which every gate's delay is zero (and exactly the \<open>inpt\<close> gates have no inputs),
  and every primary-input vector whose values are 0, 1 or U (no Z), applied as a
  single stimulus at any time \<open>T\<close>: the zero-delay evaluator completes, the event-driven
  simulator completes with an empty queue for every sufficiently large fuel, and every
  gate's final output is the same in both.
\<close>

theorem C9_zero_delay_agreement:
  assumes f: "fresh_zero_delay c" and vz: "vector_without_Z input_vector"
  shows "\<exists>c1 N. run_simulation_step1 c [(T, input_vector)] = Some c1
           \<and> (\<forall>n \<ge> N. \<exists>s. run_simulation_step2 n c [(T, input_vector)] = Some s
                  \<and> timing_queue s = []
                  \<and> list_all (\<lambda>g. output (sim_heap s g) = output (heap c1 g)) (gate_values c))"
proof -
  let ?h0 = "heap c" and ?vals = "gate_values c" and ?items = "gates c"
  note st = fresh_static [OF f]
  note i0 = fresh_sim_inv [OF f, of T]
  have vm: "map snd ?items = ?vals" by (simp add: gate_values_def)
  from st have dist: "distinct ?vals"
    using topo_from_distinct [of ?h0 "[]" ?vals] by (simp add: static_netlist_def topological_def)
  have fr: "\<forall>g \<in> set (map snd ?items). gtype (?h0 g) = Inpt \<longrightarrow> output (?h0 g) = VU"
    using f by (auto simp: fresh_zero_delay_def list_all_iff vm)
  from apply_test_vector_inv [OF st vz i0, of ?items ?h0] dist fr obtain hA qA where
    a: "apply_test_vector ?vals input_vector T ?h0 [] ?items = Some (hA, qA)" and
    iA: "sim_inv ?h0 ?vals T hA qA {}" and
    oA: "\<forall>x. output (hA x) = output (init_inputs_step1 ?h0 input_vector ?items x)"
    by (auto simp: vm)
  define N where "N = queue_weight ?h0 ?vals qA + 2"
  have ev: "\<exists>hB. process_events m ?vals T hA qA = Some (hB, [])
              \<and> sim_inv ?h0 ?vals T hB [] {}
              \<and> (\<forall>x. gtype (?h0 x) = Inpt \<longrightarrow> output (hB x) = output (hA x))"
    if "queue_weight ?h0 ?vals qA < m" for m
    using process_events_inv [OF st iA that] .
  from ev [of "N - 1"] obtain hB where
    iB: "sim_inv ?h0 ?vals T hB [] {}" and
    oB: "\<forall>x. gtype (?h0 x) = Inpt \<longrightarrow> output (hB x) = output (hA x)"
    by (auto simp: N_def)
  let ?hI = "init_inputs_step1 ?h0 input_vector ?items"
  have "\<exists>h1. propagate_step1 ?hI ?vals = Some h1 \<and> (\<forall>x \<in> set ?vals. output (h1 x) = output (hB x))"
  proof (rule propagate_step1_agrees [OF st iB, of "[]"])
    show "?vals = [] @ ?vals" by simp
    show "\<forall>x. gtype (?hI x) = gtype (?h0 x) \<and> inputs (?hI x) = inputs (?h0 x)"
      by (simp add: init_inputs_step1_fields)
    show "\<forall>x \<in> set []. output (?hI x) = output (hB x)" by simp
    show "\<forall>x \<in> set ?vals. gtype (?h0 x) = Inpt \<longrightarrow> output (?hI x) = output (hB x)"
      using oA oB by simp
  qed
  then obtain h1 where p: "propagate_step1 ?hI ?vals = Some h1"
    and o1: "\<forall>x \<in> set ?vals. output (h1 x) = output (hB x)" by blast
  have s1: "run_simulation_step1 c [(T, input_vector)] = Some (c\<lparr>heap := h1\<rparr>)"
    using p by (simp add: simulate_vector_step1_def)
  have s2: "\<exists>s. run_simulation_step2 n c [(T, input_vector)] = Some s
              \<and> timing_queue s = []
              \<and> list_all (\<lambda>g. output (sim_heap s g) = output (heap (c\<lparr>heap := h1\<rparr>) g)) ?vals"
    if n: "N \<le> n" for n
  proof -
    from n obtain m where m: "n = Suc m" and w: "queue_weight ?h0 ?vals qA < m"
      by (cases n) (auto simp: N_def)
    from ev [OF w] obtain hB' where
      pe: "process_events m ?vals T hA qA = Some (hB', [])" and
      iB': "sim_inv ?h0 ?vals T hB' [] {}" and
      oB': "\<forall>x. gtype (?h0 x) = Inpt \<longrightarrow> output (hB' x) = output (hA x)" by blast
    have "\<exists>h1'. propagate_step1 ?hI ?vals = Some h1' \<and> (\<forall>x \<in> set ?vals. output (h1' x) = output (hB' x))"
    proof (rule propagate_step1_agrees [OF st iB', of "[]"])
      show "?vals = [] @ ?vals" by simp
      show "\<forall>x. gtype (?hI x) = gtype (?h0 x) \<and> inputs (?hI x) = inputs (?h0 x)"
        by (simp add: init_inputs_step1_fields)
      show "\<forall>x \<in> set []. output (?hI x) = output (hB' x)" by simp
      show "\<forall>x \<in> set ?vals. gtype (?h0 x) = Inpt \<longrightarrow> output (?hI x) = output (hB' x)"
        using oA oB' by simp
    qed
    with p have eq: "\<forall>x \<in> set ?vals. output (hB' x) = output (h1 x)" by auto
    let ?s = "log_outputs ?vals T
                (simulation_init ?h0\<lparr>sim_heap := hB', timing_queue := [], current_test_index := Suc 0\<rparr>)"
    have "run_simulation_step2 n c [(T, input_vector)] = Some ?s"
      using a pe by (simp add: run_simulation_step2_def m simulation_init_def vm Let_def)
    moreover have "timing_queue ?s = []" "sim_heap ?s = hB'"
      by (simp_all add: log_outputs_def Let_def simulation_init_def)
    ultimately show ?thesis using eq by (simp add: list_all_iff)
  qed
  from s1 s2 show ?thesis by blast
qed


theorem C9_zero_delay_agreement_witness:
  "fresh_zero_delay and_gate_circuit \<and> vector_without_Z [(1, V1), (2, V0)]
   \<and> (\<exists>c1 N. run_simulation_step1 and_gate_circuit [(0, [(1, V1), (2, V0)])] = Some c1
          \<and> (\<forall>n \<ge> N. \<exists>s. run_simulation_step2 n and_gate_circuit [(0, [(1, V1), (2, V0)])] = Some s
                 \<and> timing_queue s = []
                 \<and> list_all (\<lambda>g. output (sim_heap s g) = output (heap c1 g))
                      (gate_values and_gate_circuit)))"
proof -
  have f: "fresh_zero_delay and_gate_circuit"
    by (simp add: fresh_zero_delay_def topological_def and_gate_circuit_def gate_values_def
        Gate_init_def empty_store_def)
  have v: "vector_without_Z [(1, V1), (2, V0)]"
    by (simp add: vector_without_Z_def known_or_U_def)
  from C9_zero_delay_agreement [OF f v, of 0] f v show ?thesis by simp
qed

end
